theory Spec2Isabelle
  imports Main
begin

section \<open>Bytes, text and the Python primitives the programs use\<close>

text \<open>
  A Python \<open>bytes\<close>/\<open>bytearray\<close> value is a list of 8-bit characters. A Python \<open>str\<close> is
  represented by its UTF-8 encoding, so \<open>s.encode("utf-8")\<close> is the identity on the
  representation and \<open>b.decode("utf-8", errors="replace")\<close> is the function
  \<open>decode_replace\<close> below. The string operations of the programs (\<open>rstrip("\n")\<close>,
  \<open>startswith\<close>, \<open>split("|")\<close>, concatenation in f-strings) only look for ASCII characters,
  and an ASCII byte never occurs inside a multi-byte UTF-8 sequence, so they act on the
  representation exactly as they act on the code points.
\<close>

type_synonym bytes = "char list"
type_synonym str = "char list"

abbreviation NL :: char where "NL \<equiv> CHR 0x0A"
abbreviation BAR :: char where "BAR \<equiv> CHR ''|''"

datatype error = ConnectionError | OSError | ValueError

subsection \<open>\<open>bytes.decode("utf-8", errors="replace")\<close>\<close>

definition is_cont :: "char \<Rightarrow> bool" where
  "is_cont b = (0x80 \<le> (of_char b :: nat) \<and> (of_char b :: nat) < 0xC0)"

definition second_ok :: "char \<Rightarrow> char \<Rightarrow> bool" where
  \<comment> \<open>the second byte of a 3- or 4-byte sequence: no overlong form, no surrogate,
      nothing above U+10FFFF\<close>
  "second_ok ch ch2 =
     (is_cont ch2 \<and>
      (if (of_char ch :: nat) = 0xE0 then 0xA0 \<le> (of_char ch2 :: nat)
       else if (of_char ch :: nat) = 0xED then (of_char ch2 :: nat) < 0xA0
       else if (of_char ch :: nat) = 0xF0 then 0x90 \<le> (of_char ch2 :: nat)
       else if (of_char ch :: nat) = 0xF4 then (of_char ch2 :: nat) < 0x90
       else True))"

definition U_FFFD :: str where
  \<comment> \<open>the replacement character U+FFFD, in the representation\<close>
  "U_FFFD = [CHR 0xEF, CHR 0xBF, CHR 0xBD]"

datatype lead = Ascii | Lead2 | Lead3 | Lead4 | InvalidStart

definition classify :: "char \<Rightarrow> lead" where
  \<comment> \<open>what the first byte of a sequence announces\<close>
  "classify ch =
     (if (of_char ch :: nat) < 0x80 then Ascii
      else if (of_char ch :: nat) < 0xC2 then InvalidStart
      else if (of_char ch :: nat) < 0xE0 then Lead2
      else if (of_char ch :: nat) < 0xF0 then Lead3
      else if (of_char ch :: nat) < 0xF5 then Lead4
      else InvalidStart)"

definition decode_step :: "char \<Rightarrow> bytes \<Rightarrow> str \<times> bytes" where
  \<comment> \<open>one round of the decoder's loop on the input \<open>ch # s\<close>: the text it produces and the
      input it leaves. An ill-formed sequence gives one U+FFFD for its longest prefix
      that could still begin a well-formed sequence.\<close>
  "decode_step ch s =
     (case classify ch of
        Ascii \<Rightarrow> ([ch], s)
      | InvalidStart \<Rightarrow> (U_FFFD, s)
      | Lead2 \<Rightarrow>
          (case s of
             [] \<Rightarrow> (U_FFFD, [])
           | ch2 # s2 \<Rightarrow> if is_cont ch2 then ([ch, ch2], s2) else (U_FFFD, s))
      | Lead3 \<Rightarrow>
          (case s of
             [] \<Rightarrow> (U_FFFD, [])
           | ch2 # s2 \<Rightarrow>
               if \<not> second_ok ch ch2 then (U_FFFD, s)
               else (case s2 of
                       [] \<Rightarrow> (U_FFFD, [])
                     | ch3 # s3 \<Rightarrow>
                         if is_cont ch3 then ([ch, ch2, ch3], s3) else (U_FFFD, s2)))
      | Lead4 \<Rightarrow>
          (case s of
             [] \<Rightarrow> (U_FFFD, [])
           | ch2 # s2 \<Rightarrow>
               if \<not> second_ok ch ch2 then (U_FFFD, s)
               else (case s2 of
                       [] \<Rightarrow> (U_FFFD, [])
                     | ch3 # s3 \<Rightarrow>
                         if \<not> is_cont ch3 then (U_FFFD, s2)
                         else (case s3 of
                                 [] \<Rightarrow> (U_FFFD, [])
                               | ch4 # s4 \<Rightarrow>
                                   if is_cont ch4 then ([ch, ch2, ch3, ch4], s4)
                                   else (U_FFFD, s3)))))"

lemma decode_step_length: "length (snd (decode_step ch s)) \<le> length s"
  by (cases "classify ch") (simp_all add: decode_step_def split: list.splits)

function decode_replace :: "bytes \<Rightarrow> str" where
  "decode_replace [] = []"
| "decode_replace (ch # s) = fst (decode_step ch s) @ decode_replace (snd (decode_step ch s))"
  by pat_completeness auto
termination
  by (relation "measure length") (simp_all add: decode_step_length less_Suc_eq_le)

text \<open>Well-formed UTF-8 (the Unicode standard's table of well-formed byte sequences):
  the representations of the Python strings without lone surrogates.\<close>

fun well_formed :: "bytes \<Rightarrow> bool" where
  "well_formed [] = True"
| "well_formed (ch # s) =
     (case classify ch of
        Ascii \<Rightarrow> well_formed s
      | InvalidStart \<Rightarrow> False
      | Lead2 \<Rightarrow> (case s of ch2 # s2 \<Rightarrow> is_cont ch2 \<and> well_formed s2 | _ \<Rightarrow> False)
      | Lead3 \<Rightarrow>
          (case s of
             ch2 # ch3 # s3 \<Rightarrow> second_ok ch ch2 \<and> is_cont ch3 \<and> well_formed s3
           | _ \<Rightarrow> False)
      | Lead4 \<Rightarrow>
          (case s of
             ch2 # ch3 # ch4 # s4 \<Rightarrow>
               second_ok ch ch2 \<and> is_cont ch3 \<and> is_cont ch4 \<and> well_formed s4
           | _ \<Rightarrow> False))"

subsection \<open>String operations\<close>

definition rstrip_nl :: "str \<Rightarrow> str" where
  \<comment> \<open>\<open>s.rstrip("\n")\<close>\<close>
  "rstrip_nl s = rev (dropWhile (\<lambda>c. c = NL) (rev s))"

definition startswith :: "str \<Rightarrow> str \<Rightarrow> bool" where
  "startswith s p = (take (length p) s = p)"

fun split_on :: "char \<Rightarrow> str \<Rightarrow> str list" where
  \<comment> \<open>\<open>s.split(sep)\<close> for a one-character separator: never the empty list\<close>
  "split_on sep [] = [[]]"
| "split_on sep (c # cs) =
     (if c = sep then [] # split_on sep cs
      else (case split_on sep cs of
              p # ps \<Rightarrow> (c # p) # ps
            | [] \<Rightarrow> [[c]]))"

definition split_once :: "char \<Rightarrow> str \<Rightarrow> str list" where
  \<comment> \<open>\<open>s.split(sep, 1)\<close>\<close>
  "split_once sep s =
     (if sep \<in> set s
      then [takeWhile (\<lambda>c. c \<noteq> sep) s, tl (dropWhile (\<lambda>c. c \<noteq> sep) s)]
      else [s])"

subsection \<open>\<open>int(s)\<close> and \<open>str(n)\<close>\<close>

text \<open>
  \<open>int(s)\<close> of a string works in two stages. A string that is not pure ASCII is first
  brought to ASCII: every white-space character from U+007F on becomes a blank, every
  decimal digit from there on its ASCII digit, and at the first other character from
  there on the string ends with a \<open>?\<close>. The result is parsed in base 10: optional white
  space, an optional sign, decimal digits with single underscores allowed between
  digits, optional white space. The tables of white space and of decimal digits are
  those of Unicode 14.0, the version of CPython 3.11; a run of ten decimal digits is
  given by the code point of its zero. The interpreter's limit on the number of digits
  (\<open>sys.set_int_max_str_digits\<close>) is taken as switched off.
\<close>

definition unicode_isspace :: "nat \<Rightarrow> bool" where
  \<comment> \<open>\<open>Py_UNICODE_ISSPACE\<close>, on a code point\<close>
  "unicode_isspace cp =
     ((0x09 \<le> cp \<and> cp \<le> 0x0D) \<or> (0x1C \<le> cp \<and> cp \<le> 0x20) \<or>
      cp = 0x85 \<or> cp = 0xA0 \<or> cp = 0x1680 \<or> (0x2000 \<le> cp \<and> cp \<le> 0x200A) \<or>
      cp = 0x2028 \<or> cp = 0x2029 \<or> cp = 0x202F \<or> cp = 0x205F \<or> cp = 0x3000)"

definition decimal_zeros :: "nat list" where
  "decimal_zeros =
     [
      0x30, 0x660, 0x6F0, 0x7C0, 0x966, 0x9E6, 0xA66, 0xAE6,
      0xB66, 0xBE6, 0xC66, 0xCE6, 0xD66, 0xDE6, 0xE50, 0xED0,
      0xF20, 0x1040, 0x1090, 0x17E0, 0x1810, 0x1946, 0x19D0, 0x1A80,
      0x1A90, 0x1B50, 0x1BB0, 0x1C40, 0x1C50, 0xA620, 0xA8D0, 0xA900,
      0xA9D0, 0xA9F0, 0xAA50, 0xABF0, 0xFF10, 0x104A0, 0x10D30, 0x11066,
      0x110F0, 0x11136, 0x111D0, 0x112F0, 0x11450, 0x114D0, 0x11650, 0x116C0,
      0x11730, 0x118E0, 0x11950, 0x11C50, 0x11D50, 0x11DA0, 0x16A60, 0x16AC0,
      0x16B50, 0x1D7CE, 0x1D7D8, 0x1D7E2, 0x1D7EC, 0x1D7F6, 0x1E140, 0x1E2F0,
      0x1E950, 0x1FBF0]"

definition unicode_todecimal :: "nat \<Rightarrow> nat option" where
  \<comment> \<open>\<open>Py_UNICODE_TODECIMAL\<close>, on a code point; \<open>None\<close> for its \<open>-1\<close>\<close>
  "unicode_todecimal cp =
     (case filter (\<lambda>z. z \<le> cp \<and> cp < z + 10) decimal_zeros of
        [] \<Rightarrow> None
      | z # _ \<Rightarrow> Some (cp - z))"

definition digit_char :: "nat \<Rightarrow> char" where
  "digit_char d = ''0123456789'' ! d"

definition transform_char :: "nat \<Rightarrow> str \<Rightarrow> str" where
  \<comment> \<open>what a character from U+007F on becomes, in front of the transformed rest\<close>
  "transform_char cp rest =
     (if unicode_isspace cp then CHR '' '' # rest
      else (case unicode_todecimal cp of
              None \<Rightarrow> ''?''
            | Some d \<Rightarrow> digit_char d # rest))"

definition low_bits :: "char \<Rightarrow> nat" where
  \<comment> \<open>the six bits that a continuation byte carries\<close>
  "low_bits b = (of_char b :: nat) mod 64"

fun to_ascii :: "str \<Rightarrow> str" where
  \<comment> \<open>\<open>_PyUnicode_TransformDecimalAndSpaceToASCII\<close> on a string that is not pure ASCII. The
      characters of the string are read off its representation; bytes that are no
      character, which no string has, end the result like an unknown character\<close>
  "to_ascii [] = []"
| "to_ascii (ch # s) =
     (case classify ch of
        Ascii \<Rightarrow> if (of_char ch :: nat) < 127 then ch # to_ascii s else ''?''
      | InvalidStart \<Rightarrow> ''?''
      | Lead2 \<Rightarrow>
          (case s of
             ch2 # s2 \<Rightarrow>
               transform_char (((of_char ch :: nat) - 0xC0) * 64 + low_bits ch2) (to_ascii s2)
           | _ \<Rightarrow> ''?'')
      | Lead3 \<Rightarrow>
          (case s of
             ch2 # ch3 # s3 \<Rightarrow>
               transform_char
                 ((((of_char ch :: nat) - 0xE0) * 64 + low_bits ch2) * 64 + low_bits ch3)
                 (to_ascii s3)
           | _ \<Rightarrow> ''?'')
      | Lead4 \<Rightarrow>
          (case s of
             ch2 # ch3 # ch4 # s4 \<Rightarrow>
               transform_char
                 (((((of_char ch :: nat) - 0xF0) * 64 + low_bits ch2) * 64 + low_bits ch3) * 64 +
                  low_bits ch4)
                 (to_ascii s4)
           | _ \<Rightarrow> ''?''))"

definition py_isspace :: "char \<Rightarrow> bool" where
  \<comment> \<open>\<open>Py_ISSPACE\<close>, the white space of the parser\<close>
  "py_isspace c = (c \<in> {CHR '' '', CHR 0x09, CHR 0x0A, CHR 0x0B, CHR 0x0C, CHR 0x0D})"

definition is_digit :: "char \<Rightarrow> bool" where
  "is_digit c = (48 \<le> (of_char c :: nat) \<and> (of_char c :: nat) \<le> 57)"

definition digit_val :: "char \<Rightarrow> nat" where
  "digit_val c = of_char c - 48"

fun scan_digits :: "nat \<Rightarrow> str \<Rightarrow> (nat \<times> str) option" where
  "scan_digits acc [] = Some (acc, [])"
| "scan_digits acc (c # cs) =
     (if is_digit c then scan_digits (acc * 10 + digit_val c) cs
      else if c = CHR ''_'' then
        (case cs of
           [] \<Rightarrow> None
         | d # ds \<Rightarrow> if is_digit d then scan_digits (acc * 10 + digit_val d) ds else None)
      else Some (acc, c # cs))"

definition long_from_string :: "str \<Rightarrow> error + int" where
  \<comment> \<open>\<open>PyLong_FromString\<close> in base 10, with the caller's check that the whole string was read\<close>
  "long_from_string s =
     (let s1 = dropWhile py_isspace s;
          neg = (case s1 of c # _ \<Rightarrow> c = CHR ''-'' | [] \<Rightarrow> False);
          s2 = (case s1 of c # r \<Rightarrow> if c = CHR ''+'' \<or> c = CHR ''-'' then r else s1 | [] \<Rightarrow> [])
      in case s2 of
           [] \<Rightarrow> Inl ValueError
         | d # r \<Rightarrow>
             if \<not> is_digit d then Inl ValueError
             else (case scan_digits (digit_val d) r of
                     None \<Rightarrow> Inl ValueError
                   | Some (v, rest) \<Rightarrow>
                       if dropWhile py_isspace rest = []
                       then Inr (if neg then - int v else int v)
                       else Inl ValueError))"

definition py_int :: "str \<Rightarrow> error + int" where
  \<comment> \<open>\<open>int(s)\<close>: a pure ASCII string is parsed as it is\<close>
  "py_int s =
     long_from_string (if list_all (\<lambda>c. (of_char c :: nat) < 0x80) s then s else to_ascii s)"

fun str_nat :: "nat \<Rightarrow> str" where
  "str_nat n = (if n < 10 then [digit_char n] else str_nat (n div 10) @ [digit_char (n mod 10)])"

definition py_str :: "int \<Rightarrow> str" where
  \<comment> \<open>\<open>str(i)\<close>, as the f-strings format an integer\<close>
  "py_str i = (if i < 0 then CHR ''-'' # str_nat (nat (- i)) else str_nat (nat i))"

declare str_nat.simps [simp del]

section \<open>The Stream Reader: class \<open>Connection\<close>\<close>

text \<open>
  The socket of a connection holds the chunks that successive \<open>recv\<close> calls will find,
  in order; after the last one the peer has closed and \<open>recv\<close> returns \<open>b""\<close>.
  \<open>outgoing\<close> collects what \<open>sendall\<close> has written; \<open>capacity\<close> is the number of bytes the
  peer will still accept before the connection breaks (\<open>None\<close>: no limit), so that a
  \<open>sendall\<close> can fail, also half-way through a frame. \<open>closed\<close> records \<open>sock.close()\<close>.
\<close>

record connection =
  incoming :: "bytes list"
  buffer :: bytes
  outgoing :: bytes
  capacity :: "nat option"
  closed :: bool

definition Connection :: "bytes list \<Rightarrow> nat option \<Rightarrow> connection" where
  \<comment> \<open>\<open>Connection.__init__\<close> on a freshly accepted socket\<close>
  "Connection chunks cap =
     \<lparr>incoming = chunks, buffer = [], outgoing = [], capacity = cap, closed = False\<rparr>"

definition sock_recv :: "nat \<Rightarrow> connection \<Rightarrow> (error + bytes) \<times> connection" where
  \<comment> \<open>\<open>sock.recv(k)\<close>: at most \<open>k\<close> bytes of the next chunk; \<open>b""\<close> at end of stream;
      \<open>OSError\<close> on a socket that was closed locally\<close>
  "sock_recv k c =
     (if closed c then (Inl OSError, c)
      else (case incoming c of
              [] \<Rightarrow> (Inr [], c)
            | ch # rest \<Rightarrow>
                if length ch \<le> k then (Inr ch, c\<lparr>incoming := rest\<rparr>)
                else (Inr (take k ch), c\<lparr>incoming := drop k ch # rest\<rparr>)))"

fun find_byte :: "char \<Rightarrow> bytes \<Rightarrow> nat option" where
  \<comment> \<open>\<open>bytearray.find\<close> of a single byte; \<open>None\<close> is Python's \<open>-1\<close>\<close>
  "find_byte x [] = None"
| "find_byte x (y # ys) = (if y = x then Some 0 else map_option Suc (find_byte x ys))"

definition in_flight :: "connection \<Rightarrow> nat" where
  "in_flight c = sum_list (map length (incoming c))"

function recv_line :: "connection \<Rightarrow> (error + str) \<times> connection" where
  "recv_line c =
     (case find_byte NL (buffer c) of
        Some nl_index \<Rightarrow>
          (Inr (decode_replace (take (nl_index + 1) (buffer c))),
           c\<lparr>buffer := drop (nl_index + 1) (buffer c)\<rparr>)
      | None \<Rightarrow>
          (case sock_recv 4096 c of
             (Inl e, c') \<Rightarrow> (Inl e, c')
           | (Inr chunk, c') \<Rightarrow>
               if chunk = [] then (Inl ConnectionError, c')
               else recv_line (c'\<lparr>buffer := buffer c' @ chunk\<rparr>)))"
  by pat_completeness auto
termination
  by (relation "measure in_flight")
     (auto simp: in_flight_def sock_recv_def split: if_splits list.splits)

declare recv_line.simps [simp del]

definition slice_to :: "int \<Rightarrow> 'a list \<Rightarrow> 'a list" where
  \<comment> \<open>Python's \<open>xs[:k]\<close>; a negative \<open>k\<close> counts from the end\<close>
  "slice_to k xs = (if k < 0 then take (nat (int (length xs) + k)) xs else take (nat k) xs)"

definition del_to :: "int \<Rightarrow> 'a list \<Rightarrow> 'a list" where
  \<comment> \<open>what \<open>del xs[:k]\<close> leaves\<close>
  "del_to k xs = (if k < 0 then drop (nat (int (length xs) + k)) xs else drop (nat k) xs)"

function recv_exact_loop :: "int \<Rightarrow> bytes \<Rightarrow> connection \<Rightarrow> (error + bytes) \<times> connection" where
  \<comment> \<open>the \<open>while n > 0\<close> loop of \<open>recv_exact\<close>\<close>
  "recv_exact_loop n data c =
     (if n > 0 then
        (case sock_recv (min 4096 (nat n)) c of
           (Inl e, c') \<Rightarrow> (Inl e, c')
         | (Inr chunk, c') \<Rightarrow>
             if chunk = [] then (Inl ConnectionError, c')
             else recv_exact_loop (n - int (length chunk)) (data @ chunk) c')
      else (Inr data, c))"
  by pat_completeness auto
termination
  by (relation "measure (\<lambda>(n, data, c). nat n)") auto

declare recv_exact_loop.simps [simp del]

definition recv_exact :: "int \<Rightarrow> connection \<Rightarrow> (error + bytes) \<times> connection" where
  "recv_exact n c =
     (if buffer c \<noteq> [] then
        (let take_n = min n (int (length (buffer c)))
         in recv_exact_loop (n - take_n) (slice_to take_n (buffer c))
              (c\<lparr>buffer := del_to take_n (buffer c)\<rparr>))
      else recv_exact_loop n [] c)"

text \<open>
  What a connection can still read: the accumulator followed by the bytes in flight.
  \<open>chunks_ok\<close> says that \<open>recv\<close> returns \<open>b""\<close> only at the end of the stream: an empty
  chunk is followed by no further data.
\<close>

definition pending :: "connection \<Rightarrow> bytes" where
  "pending c = buffer c @ concat (incoming c)"

fun chunks_ok :: "bytes list \<Rightarrow> bool" where
  "chunks_ok [] = True"
| "chunks_ok (ch # cs) = (if ch = [] then concat cs = [] else chunks_ok cs)"

definition first_line :: "bytes \<Rightarrow> bytes" where
  "first_line bs = takeWhile (\<lambda>b. b \<noteq> NL) bs @ [NL]"

definition after_line :: "bytes \<Rightarrow> bytes" where
  "after_line bs = tl (dropWhile (\<lambda>b. b \<noteq> NL) bs)"

section \<open>Saving a file: \<open>_unique_save_path\<close> and \<open>open(..., "wb")\<close>\<close>

subsection \<open>Decimal numerals are injective (for the termination of the search)\<close>

lemma str_nat_nonempty: "str_nat n \<noteq> []"
  by (subst str_nat.simps) simp

lemma of_char_digit_char: "a < 10 \<Longrightarrow> of_char (digit_char a) = (48 + a :: nat)"
proof -
  assume "a < 10"
  then consider "a = 0" | "a = 1" | "a = 2" | "a = 3" | "a = 4"
    | "a = 5" | "a = 6" | "a = 7" | "a = 8" | "a = 9"
    by atomize_elim arith
  then show ?thesis by cases (simp_all add: digit_char_def)
qed

lemma digit_char_inj: "a < 10 \<Longrightarrow> b < 10 \<Longrightarrow> digit_char a = digit_char b \<Longrightarrow> a = b"
proof -
  assume a: "a < 10" and b: "b < 10" and eq: "digit_char a = digit_char b"
  have "(48 + a :: nat) = of_char (digit_char a)" using a by (simp only: of_char_digit_char)
  also have "\<dots> = of_char (digit_char b)" by (simp only: eq)
  also have "\<dots> = 48 + b" using b by (simp only: of_char_digit_char)
  finally show "a = b" by simp
qed

lemma str_nat_inj: "str_nat n = str_nat m \<Longrightarrow> n = m"
proof (induction n arbitrary: m rule: str_nat.induct)
  case (1 n)
  show ?case
  proof (cases "n < 10")
    case True
    then have n: "str_nat n = [digit_char n]" by (subst str_nat.simps) simp
    show ?thesis
    proof (cases "m < 10")
      case m: True
      then have "str_nat m = [digit_char m]" by (subst str_nat.simps) simp
      then show ?thesis using n "1.prems" True m digit_char_inj by simp
    next
      case False
      then have "str_nat m = str_nat (m div 10) @ [digit_char (m mod 10)]"
        by (subst str_nat.simps) simp
      then show ?thesis using n "1.prems" str_nat_nonempty [of "m div 10"] by simp
    qed
  next
    case False
    then have n: "str_nat n = str_nat (n div 10) @ [digit_char (n mod 10)]"
      by (subst str_nat.simps) simp
    show ?thesis
    proof (cases "m < 10")
      case True
      then have "str_nat m = [digit_char m]" by (subst str_nat.simps) simp
      then show ?thesis using n "1.prems" str_nat_nonempty [of "n div 10"] by simp
    next
      case m: False
      then have "str_nat m = str_nat (m div 10) @ [digit_char (m mod 10)]"
        by (subst str_nat.simps) simp
      then have "str_nat (n div 10) = str_nat (m div 10)" "digit_char (n mod 10) = digit_char (m mod 10)"
        using n "1.prems" by simp_all
      then have "n div 10 = m div 10" "n mod 10 = m mod 10"
        using "1.IH" [OF False] digit_char_inj [of "n mod 10" "m mod 10"] by simp_all
      then show ?thesis by (metis div_mult_mod_eq)
    qed
  qed
qed

subsection \<open>The directory and the search for a free name\<close>

text \<open>
  The directory \<open>received\<close> is a list of (path, content) pairs, the newest first.
  \<open>os.path.exists\<close> is false for a path that \<open>os.stat\<close> refuses (a NUL byte, a name that
  is too long), and true for the directory itself.
\<close>

definition RECV_DIR :: str where
  \<comment> \<open>the directory \<open>received\<close> beside the script, by its relative name\<close>
  "RECV_DIR = ''received''"

definition basename :: "str \<Rightarrow> str" where
  \<comment> \<open>\<open>os.path.basename\<close>: what follows the last \<open>/\<close>\<close>
  "basename p = rev (takeWhile (\<lambda>c. c \<noteq> CHR ''/'') (rev p))"

definition NAME_MAX :: nat where
  \<comment> \<open>the longest file name, in bytes, that the file system takes\<close>
  "NAME_MAX = 255"

definition open_error :: "str \<Rightarrow> error option" where
  \<comment> \<open>what the system calls on a path raise before they look at the disk: Python
      refuses a NUL byte with \<open>ValueError\<close>, the file system a name of more than
      \<open>NAME_MAX\<close> bytes with \<open>OSError\<close> (ENAMETOOLONG)\<close>
  "open_error path =
     (if CHR 0x00 \<in> set path then Some ValueError
      else if NAME_MAX < length (basename path) then Some OSError
      else None)"

definition path_exists :: "(str \<times> bytes) list \<Rightarrow> str \<Rightarrow> bool" where
  \<comment> \<open>\<open>os.path.exists\<close> returns \<open>False\<close> when \<open>os.stat\<close> raises\<close>
  "path_exists fs p =
     (open_error p = None \<and>
      (p \<in> fst ` set fs \<or> p \<in> {RECV_DIR @ ''/'', RECV_DIR @ ''/.'', RECV_DIR @ ''/..''}))"

definition candidate_path :: "str \<Rightarrow> str \<Rightarrow> nat \<Rightarrow> str" where
  "candidate_path root ext idx = RECV_DIR @ ''/'' @ root @ ''_'' @ str_nat idx @ ext"

lemma candidate_path_inj: "candidate_path root ext i = candidate_path root ext j \<Longrightarrow> i = j"
proof -
  assume "candidate_path root ext i = candidate_path root ext j"
  then have "str_nat i @ ext = str_nat j @ ext" by (simp add: candidate_path_def)
  then show "i = j" using str_nat_inj by simp
qed

lemma finite_existing: "finite {j. path_exists fs (candidate_path root ext j)}"
proof -
  let ?E = "fst ` set fs \<union> {RECV_DIR @ ''/'', RECV_DIR @ ''/.'', RECV_DIR @ ''/..''}"
  have "finite ?E" by simp
  moreover have "inj (candidate_path root ext)" using candidate_path_inj by (auto simp: inj_def)
  ultimately have "finite (candidate_path root ext -` ?E)" by (rule finite_vimageI)
  moreover have "{j. path_exists fs (candidate_path root ext j)} \<subseteq> candidate_path root ext -` ?E"
    by (auto simp: path_exists_def)
  ultimately show ?thesis by (rule rev_finite_subset)
qed

function find_free :: "(str \<times> bytes) list \<Rightarrow> str \<Rightarrow> str \<Rightarrow> nat \<Rightarrow> str" where
  "find_free fs root ext idx =
     (if path_exists fs (candidate_path root ext idx) then find_free fs root ext (idx + 1)
      else candidate_path root ext idx)"
  by pat_completeness auto
termination
proof (relation "measure (\<lambda>(fs, root, ext, idx). card {j. idx \<le> j \<and> path_exists fs (candidate_path root ext j)})")
  show "wf (measure (\<lambda>(fs, root, ext, idx). card {j. idx \<le> j \<and> path_exists fs (candidate_path root ext j)}))"
    by simp
next
  fix fs :: "(str \<times> bytes) list" and root ext :: str and idx :: nat
  assume ex: "path_exists fs (candidate_path root ext idx)"
  let ?A = "{j. idx + 1 \<le> j \<and> path_exists fs (candidate_path root ext j)}"
  let ?B = "{j. idx \<le> j \<and> path_exists fs (candidate_path root ext j)}"
  have fin: "finite ?B" using finite_existing [of fs root ext] by simp
  have "idx \<in> ?B" "idx \<notin> ?A" "?A \<subseteq> ?B" using ex by auto
  then have "?A \<subset> ?B" by blast
  then have "card ?A < card ?B" using fin by (rule psubset_card_mono [rotated])
  then show "((fs, root, ext, idx + 1), (fs, root, ext, idx)) \<in>
      measure (\<lambda>(fs, root, ext, idx). card {j. idx \<le> j \<and> path_exists fs (candidate_path root ext j)})"
    by simp
qed

definition splitext :: "str \<Rightarrow> str \<times> str" where
  \<comment> \<open>\<open>os.path.splitext\<close> of a name without \<open>/\<close>: split at the last dot, unless only dots
      precede it\<close>
  "splitext p =
     (if CHR ''.'' \<notin> set p then (p, [])
      else (let dotIndex = length p - length (takeWhile (\<lambda>c. c \<noteq> CHR ''.'') (rev p)) - 1
            in if \<forall>c \<in> set (take dotIndex p). c = CHR ''.'' then (p, [])
               else (take dotIndex p, drop dotIndex p)))"

definition unique_save_path :: "(str \<times> bytes) list \<Rightarrow> str \<Rightarrow> str" where
  \<comment> \<open>\<open>_unique_save_path\<close>; \<open>find_free\<close> is its \<open>while os.path.exists(candidate)\<close> loop\<close>
  "unique_save_path fs filename =
     (let base = basename filename;
          root = fst (splitext base);
          ext = snd (splitext base);
          candidate = RECV_DIR @ ''/'' @ base
      in if path_exists fs candidate then find_free fs root ext 1 else candidate)"

section \<open>The server: registry, broadcast and the session of one client\<close>

text \<open>
  The state of the server: the registry \<open>self.clients\<close> (handles are object identities,
  here numbers), the \<open>Connection\<close> object behind each handle, the directory of received
  files with the free space of the disk, and the lines printed so far.
\<close>

datatype event =
    MsgLog nat str
  | WarnFileHeader str
  | WarnSize str
  | FileLog nat str int
  | WarnUnknown str
  | BroadcastError nat
  | ClosedLog nat

record server =
  clients :: "nat list"
  conns :: "nat \<Rightarrow> connection"
  next_id :: nat
  files :: "(str \<times> bytes) list"
  free_space :: nat
  log :: "event list"

definition sendall :: "bytes \<Rightarrow> connection \<Rightarrow> error option \<times> connection" where
  \<comment> \<open>\<open>sock.sendall(b)\<close>: \<open>OSError\<close> on a socket closed locally; when the peer takes fewer bytes
      than \<open>b\<close> has, the part it takes is written and the call raises\<close>
  "sendall b c =
     (if closed c then (Some OSError, c)
      else (case capacity c of
              None \<Rightarrow> (None, c\<lparr>outgoing := outgoing c @ b\<rparr>)
            | Some k \<Rightarrow>
                if length b \<le> k
                then (None, c\<lparr>outgoing := outgoing c @ b, capacity := Some (k - length b)\<rparr>)
                else (Some ConnectionError,
                      c\<lparr>outgoing := outgoing c @ take k b, capacity := Some 0\<rparr>)))"

definition close :: "connection \<Rightarrow> connection" where
  \<comment> \<open>\<open>Connection.close\<close>: \<open>sock.close()\<close> inside \<open>try ... except Exception: pass\<close>, so nothing is
      raised, whatever the state of the socket\<close>
  "close c = c\<lparr>closed := True\<rparr>"

definition register :: "bytes list \<Rightarrow> nat option \<Rightarrow> server \<Rightarrow> server" where
  \<comment> \<open>the accept loop of \<open>start\<close>: a fresh \<open>Connection\<close> object is appended to \<open>self.clients\<close>\<close>
  "register chunks cap s =
     s\<lparr>clients := clients s @ [next_id s],
       conns := (conns s)(next_id s := Connection chunks cap),
       next_id := next_id s + 1\<rparr>"

definition remove_client :: "nat \<Rightarrow> server \<Rightarrow> server" where
  \<comment> \<open>\<open>list.remove\<close> deletes the first occurrence\<close>
  "remove_client conn s =
     (let s1 = (if conn \<in> set (clients s) then s\<lparr>clients := remove1 conn (clients s)\<rparr> else s)
      in s1\<lparr>conns := (conns s1)(conn := close (conns s1 conn))\<rparr>)"

definition send_frame :: "bytes \<Rightarrow> bytes \<Rightarrow> connection \<Rightarrow> error option \<times> connection" where
  \<comment> \<open>the \<open>try\<close> block of \<open>broadcast\<close>: the header, and the payload if it is not empty\<close>
  "send_frame header payload c =
     (case sendall header c of
        (Some e, c1) \<Rightarrow> (Some e, c1)
      | (None, c1) \<Rightarrow> if payload \<noteq> [] then sendall payload c1 else (None, c1))"

definition send_to :: "nat \<Rightarrow> bytes \<Rightarrow> bytes \<Rightarrow> server \<Rightarrow> server" where
  \<comment> \<open>one round of \<open>for c in targets\<close>; the \<open>except\<close> branch prints and removes the target\<close>
  "send_to c header payload s =
     (case send_frame header payload (conns s c) of
        (None, c') \<Rightarrow> s\<lparr>conns := (conns s)(c := c')\<rparr>
      | (Some e, c') \<Rightarrow>
          remove_client c (s\<lparr>conns := (conns s)(c := c'), log := log s @ [BroadcastError c]\<rparr>))"

fun send_each :: "nat list \<Rightarrow> bytes \<Rightarrow> bytes \<Rightarrow> server \<Rightarrow> server" where
  "send_each [] header payload s = s"
| "send_each (c # targets) header payload s = send_each targets header payload (send_to c header payload s)"

definition broadcast :: "nat \<Rightarrow> str \<Rightarrow> bytes \<Rightarrow> server \<Rightarrow> server" where
  \<comment> \<open>the targets are the registry without the sender, as it is when the broadcast starts\<close>
  "broadcast sender header_line payload s =
     send_each (filter (\<lambda>c. c \<noteq> sender) (clients s)) header_line payload s"

definition write_file :: "str \<Rightarrow> bytes \<Rightarrow> server \<Rightarrow> error option \<times> server" where
  \<comment> \<open>\<open>with open(save_path, "wb") as f: f.write(data)\<close>. When \<open>open\<close> raises, no file is
      made; on a full disk the file keeps what fitted and \<open>OSError\<close> is raised\<close>
  "write_file path data s =
     (case open_error path of
        Some e \<Rightarrow> (Some e, s)
      | None \<Rightarrow>
          if length data \<le> free_space s
          then (None, s\<lparr>files := (path, data) # files s, free_space := free_space s - length data\<rparr>)
          else (Some OSError, s\<lparr>files := (path, take (free_space s) data) # files s, free_space := 0\<rparr>))"

datatype frame = Message str | FileTransfer str int bytes

datatype decoded = Frame frame | BadFileHeader str | BadSize str | UnknownHeader str

definition read_frame :: "connection \<Rightarrow> (error + decoded) \<times> connection" where
  \<comment> \<open>the first half of the loop body of \<open>handle_client\<close>: the header line is read and
      parsed and the payload of a file received. Unpacking \<open>_, msg = ...\<close> raises
      \<open>ValueError\<close> unless the split gives two parts\<close>
  "read_frame c =
     (case recv_line c of
        (Inl e, c1) \<Rightarrow> (Inl e, c1)
      | (Inr line, c1) \<Rightarrow>
          (let header = rstrip_nl line in
           if startswith header ''MSG|'' then
             (case split_once BAR header of
                [_, msg] \<Rightarrow> (Inr (Frame (Message msg)), c1)
              | _ \<Rightarrow> (Inl ValueError, c1))
           else if startswith header ''FILE|'' then
             (let parts = split_on BAR header in
              if length parts \<noteq> 3 then (Inr (BadFileHeader header), c1)
              else (let filename = parts ! 1; size_str = parts ! 2 in
                    case py_int size_str of
                      Inl _ \<Rightarrow> (Inr (BadSize size_str), c1)
                    | Inr size' \<Rightarrow>
                        (case recv_exact size' c1 of
                           (Inl e, c2) \<Rightarrow> (Inl e, c2)
                         | (Inr data, c2) \<Rightarrow> (Inr (Frame (FileTransfer filename size' data)), c2))))
           else (Inr (UnknownHeader header), c1)))"

datatype flow = Continue | Raise error

definition emit :: "event \<Rightarrow> server \<Rightarrow> server" where
  "emit e s = s\<lparr>log := log s @ [e]\<rparr>"

definition dispatch :: "nat \<Rightarrow> decoded \<Rightarrow> server \<Rightarrow> flow \<times> server" where
  \<comment> \<open>the second half: print, save the file, broadcast; \<open>continue\<close> after a warning\<close>
  "dispatch conn d s =
     (case d of
        Frame (Message msg) \<Rightarrow>
          (Continue, broadcast conn (''MSG|'' @ msg @ [NL]) [] (emit (MsgLog conn msg) s))
      | Frame (FileTransfer filename size' data) \<Rightarrow>
          (let save_path = unique_save_path (files s) filename in
           case write_file save_path data s of
             (Some e, s1) \<Rightarrow> (Raise e, s1)
           | (None, s1) \<Rightarrow>
               (Continue,
                broadcast conn (''FILE|'' @ filename @ ''|'' @ py_str size' @ [NL]) data
                  (emit (FileLog conn save_path size') s1)))
      | BadFileHeader header \<Rightarrow> (Continue, emit (WarnFileHeader header) s)
      | BadSize size_str \<Rightarrow> (Continue, emit (WarnSize size_str) s)
      | UnknownHeader header \<Rightarrow> (Continue, emit (WarnUnknown header) s))"

definition handle_step :: "nat \<Rightarrow> server \<Rightarrow> flow \<times> server" where
  \<comment> \<open>one round of \<open>while True\<close> in \<open>handle_client\<close>\<close>
  "handle_step conn s =
     (case read_frame (conns s conn) of
        (Inl e, c') \<Rightarrow> (Raise e, s\<lparr>conns := (conns s)(conn := c')\<rparr>)
      | (Inr d, c') \<Rightarrow> dispatch conn d (s\<lparr>conns := (conns s)(conn := c')\<rparr>))"

subsection \<open>Every iteration of the session loop consumes input\<close>

lemma find_byte_None: "(find_byte x ys = None) = (x \<notin> set ys)"
  by (induction ys) auto

lemma find_byte_Some:
  "find_byte x ys = Some i \<Longrightarrow> x \<in> set ys \<and> i = length (takeWhile (\<lambda>y. y \<noteq> x) ys)"
  by (induction ys arbitrary: i) (auto split: if_splits)

lemma first_line_append: "NL \<in> set xs \<Longrightarrow> first_line (xs @ ys) = first_line xs"
  by (induction xs) (auto simp: first_line_def)

lemma after_line_append: "NL \<in> set xs \<Longrightarrow> after_line (xs @ ys) = after_line xs @ ys"
  by (induction xs) (auto simp: after_line_def)

lemma take_first_line:
  "NL \<in> set xs \<Longrightarrow> take (Suc (length (takeWhile (\<lambda>b. b \<noteq> NL) xs))) xs = first_line xs"
  by (induction xs) (auto simp: first_line_def)

lemma drop_after_line:
  "NL \<in> set xs \<Longrightarrow> drop (Suc (length (takeWhile (\<lambda>b. b \<noteq> NL) xs))) xs = after_line xs"
  by (induction xs) (auto simp: after_line_def)

lemma chunks_ok_no_empty: "[] \<notin> set cs \<Longrightarrow> chunks_ok cs"
  by (induction cs) auto

lemma chunks_ok_all_empty: "\<forall>xs\<in>set cs. xs = [] \<Longrightarrow> chunks_ok cs"
  by (induction cs) auto

lemma recv_line_spec:
  "\<not> closed c \<Longrightarrow> chunks_ok (incoming c) \<Longrightarrow>
      \<not> closed (snd (recv_line c)) \<and> chunks_ok (incoming (snd (recv_line c))) \<and>
      outgoing (snd (recv_line c)) = outgoing c \<and> capacity (snd (recv_line c)) = capacity c \<and>
      (if NL \<in> set (pending c)
       then fst (recv_line c) = Inr (decode_replace (first_line (pending c))) \<and>
            pending (snd (recv_line c)) = after_line (pending c)
       else fst (recv_line c) = Inl ConnectionError \<and> pending (snd (recv_line c)) = pending c)"
proof (induction c rule: recv_line.induct)
  case (1 c)
  show ?case
  proof (cases "find_byte NL (buffer c)")
    case (Some i)
    then have in_buf: "NL \<in> set (buffer c)" and i: "i = length (takeWhile (\<lambda>y. y \<noteq> NL) (buffer c))"
      using find_byte_Some by blast+
    have "take (i + 1) (buffer c) = first_line (pending c)"
      using take_first_line [OF in_buf] first_line_append [OF in_buf]
      by (simp add: i pending_def)
    moreover have "drop (i + 1) (buffer c) @ concat (incoming c) = after_line (pending c)"
      using drop_after_line [OF in_buf] after_line_append [OF in_buf] by (simp add: i pending_def)
    ultimately show ?thesis
      using Some in_buf "1.prems"
      by (subst (1 2 3 4 5 6 7) recv_line.simps) (simp add: pending_def)
  next
    case None
    then have not_buf: "NL \<notin> set (buffer c)" by (simp add: find_byte_None)
    show ?thesis
    proof (cases "incoming c")
      case Nil
      have "recv_line c = (Inl ConnectionError, c)"
        using None Nil "1.prems" by (subst recv_line.simps) (simp add: sock_recv_def)
      then show ?thesis using not_buf "1.prems" Nil
        by (simp add: pending_def)
    next
      case (Cons ch rest)
      show ?thesis
      proof (cases "ch = []")
        case True
        have "recv_line c = (Inl ConnectionError, c\<lparr>incoming := rest\<rparr>)"
          using None Cons True "1.prems" by (subst recv_line.simps) (simp add: sock_recv_def)
        then show ?thesis using not_buf "1.prems" Cons True
          by (auto simp: pending_def chunks_ok_all_empty)
      next
        case False
        define chunk where "chunk = (if length ch \<le> 4096 then ch else take 4096 ch)"
        define c' where "c' = (if length ch \<le> 4096 then c\<lparr>incoming := rest\<rparr> else c\<lparr>incoming := drop 4096 ch # rest\<rparr>)"
        have sr: "sock_recv 4096 c = (Inr chunk, c')"
          using "1.prems" Cons by (simp add: sock_recv_def chunk_def c'_def)
        have ne: "chunk \<noteq> []" using False by (auto simp: chunk_def)
        define c'' where "c'' = c'\<lparr>buffer := buffer c' @ chunk\<rparr>"
        have pend: "pending c'' = pending c"
          using Cons by (auto simp: c''_def c'_def chunk_def pending_def)
        have ok: "\<not> closed c''" "chunks_ok (incoming c'')" "outgoing c'' = outgoing c" "capacity c'' = capacity c"
          using "1.prems" Cons False by (auto simp: c''_def c'_def)
        have IH: "\<not> closed (snd (recv_line c'')) \<and> chunks_ok (incoming (snd (recv_line c''))) \<and>
      outgoing (snd (recv_line c'')) = outgoing c'' \<and> capacity (snd (recv_line c'')) = capacity c'' \<and>
      (if NL \<in> set (pending c'')
       then fst (recv_line c'') = Inr (decode_replace (first_line (pending c''))) \<and>
            pending (snd (recv_line c'')) = after_line (pending c'')
       else fst (recv_line c'') = Inl ConnectionError \<and> pending (snd (recv_line c'')) = pending c'')"
          unfolding c''_def
          by (rule "1.IH" [OF None _ _ ne, of "Inr chunk" c']) (use sr ok in \<open>simp_all add: c''_def\<close>)
        have "recv_line c = recv_line c''"
          using None sr ne by (subst recv_line.simps) (simp add: c''_def)
        then show ?thesis using IH pend ok by simp
      qed
    qed
  qed
qed

lemma sock_recv_pending:
  "sock_recv k c = (Inr chunk, c') \<Longrightarrow>
     buffer c' = buffer c \<and> chunk @ concat (incoming c') = concat (incoming c)"
  by (auto simp: sock_recv_def split: if_splits list.splits)

lemma recv_line_pending_le: "length (pending (snd (recv_line c))) \<le> length (pending c)"
proof (induction c rule: recv_line.induct)
  case (1 c)
  show ?case
  proof (cases "find_byte NL (buffer c)")
    case (Some i)
    then have "recv_line c = (Inr (decode_replace (take (i + 1) (buffer c))), c\<lparr>buffer := drop (i + 1) (buffer c)\<rparr>)"
      by (subst recv_line.simps) simp
    then show ?thesis by (simp add: pending_def)
  next
    case None
    obtain r c' where sr: "sock_recv 4096 c = (r, c')" by (cases "sock_recv 4096 c")
    show ?thesis
    proof (cases r)
      case (Inl e)
      then have "recv_line c = (Inl e, c')" using None sr by (subst recv_line.simps) simp
      moreover have "c' = c" using sr Inl by (auto simp: sock_recv_def split: if_splits list.splits)
      ultimately show ?thesis by simp
    next
      case (Inr chunk)
      note P = sock_recv_pending [OF sr [unfolded Inr]]
      show ?thesis
      proof (cases "chunk = []")
        case True
        then have "recv_line c = (Inl ConnectionError, c')" using None sr Inr by (subst recv_line.simps) simp
        then show ?thesis using P True by (simp add: pending_def)
      next
        case False
        have "recv_line c = recv_line (c'\<lparr>buffer := buffer c' @ chunk\<rparr>)"
          using None sr Inr False by (subst recv_line.simps) simp
        moreover have "length (pending (snd (recv_line (c'\<lparr>buffer := buffer c' @ chunk\<rparr>))))
            \<le> length (pending (c'\<lparr>buffer := buffer c' @ chunk\<rparr>))"
          by (rule "1.IH" [OF None _ _ False, of "Inr chunk" c']) (simp_all add: sr Inr)
        moreover have "pending (c'\<lparr>buffer := buffer c' @ chunk\<rparr>) = pending c"
          using P by (simp add: pending_def)
        ultimately show ?thesis by simp
      qed
    qed
  qed
qed

lemma recv_line_pending_less:
  "fst (recv_line c) = Inr line \<Longrightarrow> length (pending (snd (recv_line c))) < length (pending c)"
proof (induction c rule: recv_line.induct)
  case (1 c)
  show ?case
  proof (cases "find_byte NL (buffer c)")
    case (Some i)
    then have "recv_line c = (Inr (decode_replace (take (i + 1) (buffer c))), c\<lparr>buffer := drop (i + 1) (buffer c)\<rparr>)"
      by (subst recv_line.simps) simp
    moreover have "buffer c \<noteq> []" using Some by auto
    ultimately show ?thesis by (simp add: pending_def)
  next
    case None
    obtain r c' where sr: "sock_recv 4096 c = (r, c')" by (cases "sock_recv 4096 c")
    show ?thesis
    proof (cases r)
      case (Inl e)
      then have "recv_line c = (Inl e, c')" using None sr by (subst recv_line.simps) simp
      then show ?thesis using "1.prems" by simp
    next
      case (Inr chunk)
      note P = sock_recv_pending [OF sr [unfolded Inr]]
      show ?thesis
      proof (cases "chunk = []")
        case True
        then have "recv_line c = (Inl ConnectionError, c')" using None sr Inr by (subst recv_line.simps) simp
        then show ?thesis using "1.prems" by simp
      next
        case False
        have eq: "recv_line c = recv_line (c'\<lparr>buffer := buffer c' @ chunk\<rparr>)"
          using None sr Inr False by (subst recv_line.simps) simp
        have "length (pending (snd (recv_line (c'\<lparr>buffer := buffer c' @ chunk\<rparr>))))
            < length (pending (c'\<lparr>buffer := buffer c' @ chunk\<rparr>))"
          by (rule "1.IH" [OF None _ _ False, of "Inr chunk" c']) (use "1.prems" eq in \<open>simp_all add: sr Inr\<close>)
        moreover have "pending (c'\<lparr>buffer := buffer c' @ chunk\<rparr>) = pending c"
          using P by (simp add: pending_def)
        ultimately show ?thesis using eq by simp
      qed
    qed
  qed
qed

lemma recv_exact_loop_pending_le:
  "length (pending (snd (recv_exact_loop n data c))) \<le> length (pending c)"
proof (induction n data c rule: recv_exact_loop.induct)
  case (1 n data c)
  show ?case
  proof (cases "n > 0")
    case False
    then have "recv_exact_loop n data c = (Inr data, c)" by (subst recv_exact_loop.simps) simp
    then show ?thesis by simp
  next
    case True
    obtain r c' where sr: "sock_recv (min 4096 (nat n)) c = (r, c')"
      by (cases "sock_recv (min 4096 (nat n)) c")
    show ?thesis
    proof (cases r)
      case (Inl e)
      then have "recv_exact_loop n data c = (Inl e, c')" using True sr by (subst recv_exact_loop.simps) simp
      moreover have "c' = c" using sr Inl by (auto simp: sock_recv_def split: if_splits list.splits)
      ultimately show ?thesis by simp
    next
      case (Inr chunk)
      note P = sock_recv_pending [OF sr [unfolded Inr]]
      have le: "length (pending c') \<le> length (pending c)"
        using P by (simp add: pending_def) (metis le_add2 length_append)
      show ?thesis
      proof (cases "chunk = []")
        case True
        then have "recv_exact_loop n data c = (Inl ConnectionError, c')"
          using True sr Inr \<open>n > 0\<close> by (subst recv_exact_loop.simps) simp
        then show ?thesis using le by simp
      next
        case False
        have "recv_exact_loop n data c = recv_exact_loop (n - int (length chunk)) (data @ chunk) c'"
          using True sr Inr False by (subst recv_exact_loop.simps) simp
        moreover have "length (pending (snd (recv_exact_loop (n - int (length chunk)) (data @ chunk) c')))
            \<le> length (pending c')"
          by (rule "1.IH" [OF True _ _ False, of "Inr chunk" c']) (simp_all add: sr Inr)
        ultimately show ?thesis using le by simp
      qed
    qed
  qed
qed

lemma recv_exact_pending_le: "length (pending (snd (recv_exact n c))) \<le> length (pending c)"
proof (cases "buffer c = []")
  case True
  then show ?thesis using recv_exact_loop_pending_le [of n "[]" c] by (simp add: recv_exact_def)
next
  case False
  define k where "k = min n (int (length (buffer c)))"
  define c1 where "c1 = c\<lparr>buffer := del_to k (buffer c)\<rparr>"
  have "recv_exact n c = recv_exact_loop (n - k) (slice_to k (buffer c)) c1"
    using False by (simp add: recv_exact_def Let_def k_def c1_def)
  moreover have "length (pending c1) \<le> length (pending c)"
    by (simp add: c1_def pending_def del_to_def)
  ultimately show ?thesis
    using recv_exact_loop_pending_le [of "n - k" "slice_to k (buffer c)" c1] by simp
qed

lemma read_frame_snd:
  "snd (read_frame c) = snd (recv_line c) \<or>
   (\<exists>n. snd (read_frame c) = snd (recv_exact n (snd (recv_line c))))"
proof -
  obtain r c1 where rl: "recv_line c = (r, c1)" by (cases "recv_line c")
  show ?thesis
  proof (cases r)
    case (Inl e)
    then show ?thesis using rl by (simp add: read_frame_def)
  next
    case (Inr line)
    define header where "header = rstrip_nl line"
    show ?thesis
    proof (cases "startswith header ''MSG|''")
      case True
      then have "snd (read_frame c) = c1"
        using rl Inr by (simp add: read_frame_def header_def split: list.splits)
      then show ?thesis using rl by simp
    next
      case notmsg: False
      show ?thesis
      proof (cases "startswith header ''FILE|'' \<and> length (split_on BAR header) = 3")
        case False
        then have "snd (read_frame c) = c1"
          using rl Inr notmsg by (auto simp: read_frame_def header_def Let_def)
        then show ?thesis using rl by simp
      next
        case True
        show ?thesis
        proof (cases "py_int (split_on BAR header ! 2)")
          case (Inl e)
          then have "snd (read_frame c) = c1"
            using rl Inr notmsg True by (simp add: read_frame_def header_def Let_def)
          then show ?thesis using rl by simp
        next
          case n: (Inr n)
          obtain r2 c2 where re: "recv_exact n c1 = (r2, c2)" by (cases "recv_exact n c1")
          have "snd (read_frame c) = c2"
            using rl Inr notmsg True n re
            by (cases r2) (simp_all add: read_frame_def header_def Let_def)
          then show ?thesis using rl re by (metis snd_conv)
        qed
      qed
    qed
  qed
qed

lemma read_frame_pending_less:
  "fst (read_frame c) = Inr d \<Longrightarrow> length (pending (snd (read_frame c))) < length (pending c)"
proof -
  assume ok: "fst (read_frame c) = Inr d"
  obtain r c1 where rl: "recv_line c = (r, c1)" by (cases "recv_line c")
  show ?thesis
  proof (cases r)
    case (Inl e)
    then show ?thesis using ok rl by (simp add: read_frame_def)
  next
    case (Inr line)
    have less: "length (pending c1) < length (pending c)"
      using recv_line_pending_less [of c line] rl Inr by simp
    have "length (pending (snd (read_frame c))) \<le> length (pending c1)"
      using read_frame_snd [of c] recv_exact_pending_le [of _ c1] rl by auto
    then show ?thesis using less by simp
  qed
qed

lemma remove_client_other: "c \<noteq> d \<Longrightarrow> conns (remove_client c s) d = conns s d"
  by (simp add: remove_client_def Let_def)

lemma send_to_other: "c \<noteq> d \<Longrightarrow> conns (send_to c h p s) d = conns s d"
  by (simp add: send_to_def remove_client_other split: prod.splits option.splits)

lemma send_each_other: "d \<notin> set ts \<Longrightarrow> conns (send_each ts h p s) d = conns s d"
  by (induction ts arbitrary: s) (auto simp: send_to_other)

lemma broadcast_sender: "conns (broadcast sender h p s) sender = conns s sender"
  by (simp add: broadcast_def send_each_other)

lemma write_file_conns: "conns (snd (write_file path data s)) = conns s"
  by (simp add: write_file_def split: option.splits)

lemma dispatch_conn: "conns (snd (dispatch conn d s)) conn = conns s conn"
proof (cases d)
  case (Frame f)
  show ?thesis
  proof (cases f)
    case (Message msg)
    then show ?thesis using Frame by (simp add: dispatch_def broadcast_sender emit_def)
  next
    case (FileTransfer filename size' data)
    obtain e s1 where w: "write_file (unique_save_path (files s) filename) data s = (e, s1)"
      by (cases "write_file (unique_save_path (files s) filename) data s")
    then have "conns s1 = conns s" using write_file_conns [of "unique_save_path (files s) filename" data s] by simp
    then show ?thesis using Frame FileTransfer w
      by (cases e) (simp_all add: dispatch_def broadcast_sender emit_def Let_def)
  qed
qed (simp_all add: dispatch_def emit_def)

lemma handle_step_decreases:
  "handle_step conn s = (Continue, s') \<Longrightarrow>
     length (pending (conns s' conn)) < length (pending (conns s conn))"
proof -
  assume hs: "handle_step conn s = (Continue, s')"
  obtain r c' where rf: "read_frame (conns s conn) = (r, c')" by (cases "read_frame (conns s conn)")
  show ?thesis
  proof (cases r)
    case (Inl e)
    then show ?thesis using hs rf by (simp add: handle_step_def)
  next
    case (Inr d)
    have less: "length (pending c') < length (pending (conns s conn))"
      using read_frame_pending_less [of "conns s conn" d] rf Inr by simp
    have "s' = snd (dispatch conn d (s\<lparr>conns := (conns s)(conn := c')\<rparr>))"
      using hs rf Inr by (simp add: handle_step_def)
    then have "conns s' conn = c'" using dispatch_conn [of conn d "s\<lparr>conns := (conns s)(conn := c')\<rparr>"] by simp
    then show ?thesis using less by simp
  qed
qed

function handle_loop :: "nat \<Rightarrow> server \<Rightarrow> error \<times> server" where
  \<comment> \<open>the loop ends only by an exception, which it returns\<close>
  "handle_loop conn s =
     (case handle_step conn s of
        (Continue, s') \<Rightarrow> handle_loop conn s'
      | (Raise e, s') \<Rightarrow> (e, s'))"
  by pat_completeness auto
termination
  by (relation "measure (\<lambda>(conn, s). length (pending (conns s conn)))")
     (auto dest: handle_step_decreases [OF sym])

declare handle_loop.simps [simp del]

definition handle_client :: "nat \<Rightarrow> server \<Rightarrow> error option \<times> server" where
  \<comment> \<open>\<open>except (ConnectionError, OSError)\<close> prints and swallows the error, any other exception
      leaves the handler (\<open>Some e\<close>); \<open>finally\<close> removes the client in both cases\<close>
  "handle_client conn s =
     (case handle_loop conn s of
        (e, s1) \<Rightarrow>
          if e = ConnectionError \<or> e = OSError
          then (None, remove_client conn (emit (ClosedLog conn) s1))
          else (Some e, remove_client conn s1))"

section \<open>Frames on the wire, the client's encoding and the states of the server\<close>

text \<open>
  The canonical encoding of a frame is what the client of this repository writes:
  \<open>MSG|<text>\n\<close> for a message, \<open>FILE|<filename>|<length>\n\<close> and then the payload for a
  file. A frame is valid when its text or file name is a Python string (well-formed
  UTF-8 in the representation) without the delimiters of the header, and the length of
  a file is the length of its payload.
\<close>

definition ascii :: "char \<Rightarrow> bool" where
  "ascii c = (classify c = Ascii)"

definition accepts :: "bytes \<Rightarrow> connection \<Rightarrow> bool" where
  \<comment> \<open>the socket is open and the peer takes \<open>b\<close> whole\<close>
  "accepts b c = (\<not> closed c \<and> (case capacity c of None \<Rightarrow> True | Some k \<Rightarrow> length b \<le> k))"

definition digits_value :: "nat \<Rightarrow> str \<Rightarrow> nat" where
  "digits_value acc ds = foldl (\<lambda>a c. a * 10 + digit_val c) acc ds"

fun frame_header :: "frame \<Rightarrow> str" where
  "frame_header (Message text) = ''MSG|'' @ text @ [NL]"
| "frame_header (FileTransfer filename n payload) = ''FILE|'' @ filename @ ''|'' @ py_str n @ [NL]"

fun frame_payload :: "frame \<Rightarrow> bytes" where
  "frame_payload (Message text) = []"
| "frame_payload (FileTransfer filename n payload) = payload"

fun encode_frame :: "frame \<Rightarrow> bytes" where
  "encode_frame (Message text) = ''MSG|'' @ text @ [NL]"
| "encode_frame (FileTransfer filename n payload) =
     ''FILE|'' @ filename @ ''|'' @ py_str n @ [NL] @ payload"

fun valid_frame :: "frame \<Rightarrow> bool" where
  "valid_frame (Message text) = (well_formed text \<and> NL \<notin> set text)"
| "valid_frame (FileTransfer filename n payload) =
     (well_formed filename \<and> NL \<notin> set filename \<and> BAR \<notin> set filename \<and>
      n = int (length payload))"

definition client_send_file :: "str \<Rightarrow> bytes \<Rightarrow> connection \<Rightarrow> error option \<times> connection" where
  \<comment> \<open>the two \<open>sendall\<close> calls of the client's \<open>_sender_loop\<close> for a file\<close>
  "client_send_file filename data c =
     (case sendall (''FILE|'' @ filename @ ''|'' @ py_str (int (length data)) @ [NL]) c of
        (Some e, c1) \<Rightarrow> (Some e, c1)
      | (None, c1) \<Rightarrow> sendall data c1)"

datatype call = ReadLine | ReadExact int

fun run_calls :: "call list \<Rightarrow> connection \<Rightarrow> (error + bytes) list" where
  "run_calls [] c = []"
| "run_calls (ReadLine # calls) c = fst (recv_line c) # run_calls calls (snd (recv_line c))"
| "run_calls (ReadExact n # calls) c = fst (recv_exact n c) # run_calls calls (snd (recv_exact n c))"

fun nonneg :: "call \<Rightarrow> bool" where
  "nonneg ReadLine = True"
| "nonneg (ReadExact n) = (0 \<le> n)"

definition TCPServer :: "(str \<times> bytes) list \<Rightarrow> nat \<Rightarrow> server" where
  \<comment> \<open>\<open>TCPServer.__init__\<close>: no client yet; the directory and the free space are given\<close>
  "TCPServer fs free =
     \<lparr>clients = [], conns = (\<lambda>_. Connection [] None), next_id = 0,
      files = fs, free_space = free, log = []\<rparr>"

datatype action =
    Accept "bytes list" "nat option"
  | Step nat
  | SessionEnd nat
  | Relay nat str bytes
  | Remove nat

fun perform :: "action \<Rightarrow> server \<Rightarrow> server" where
  \<comment> \<open>what the threads of the server do to its state: \<open>start\<close> accepts a connection, a
      session thread runs one iteration of its loop or ends, \<open>broadcast\<close> and
      \<open>remove_client\<close> are called\<close>
  "perform (Accept chunks cap) s = register chunks cap s"
| "perform (Step c) s = snd (handle_step c s)"
| "perform (SessionEnd c) s = snd (handle_client c s)"
| "perform (Relay c header_line payload) s = broadcast c header_line payload s"
| "perform (Remove c) s = remove_client c s"

fun run_actions :: "action list \<Rightarrow> server \<Rightarrow> server" where
  "run_actions [] s = s"
| "run_actions (x # xs) s = run_actions xs (perform x s)"

definition registry_ok :: "server \<Rightarrow> bool" where
  "registry_ok s = (distinct (clients s) \<and> list_all (\<lambda>c. c < next_id s) (clients s))"

definition example_server :: "bytes list \<Rightarrow> server" where
  \<comment> \<open>three registered clients: client 0 has sent \<open>chunks\<close> and closed, the peer of client 1
      breaks the connection after three more bytes, client 2 is healthy\<close>
  "example_server chunks =
     \<lparr>clients = [0, 1, 2],
      conns = (\<lambda>i. if i = 0 then Connection chunks None
                   else if i = 1 then Connection [] (Some 3)
                   else Connection [] None),
      next_id = 3, files = [], free_space = 100, log = []\<rparr>"

section \<open>Evaluating the model on concrete inputs\<close>

text \<open>The equations that let the simplifier run a session step on a concrete state.\<close>

lemmas eval_defs =
  example_server_def Connection_def handle_step_def read_frame_def recv_line.simps
  sock_recv_def recv_exact_def recv_exact_loop.simps slice_to_def del_to_def
  decode_step_def classify_def rstrip_nl_def startswith_def split_once_def
  py_int_def long_from_string_def py_isspace_def is_digit_def digit_val_def
  dispatch_def unique_save_path_def basename_def splitext_def path_exists_def RECV_DIR_def
  write_file_def open_error_def NAME_MAX_def emit_def py_str_def str_nat.simps digit_char_def
  broadcast_def send_to_def send_frame_def sendall_def remove_client_def close_def Let_def

section \<open>The Stream Reader in terms of the pending bytes\<close>

lemma sock_recv_cases:
  assumes "\<not> closed c" "chunks_ok (incoming c)" "0 < k"
  shows "(concat (incoming c) = [] \<and> fst (sock_recv k c) = Inr [] \<and>
            concat (incoming (snd (sock_recv k c))) = [] \<and> chunks_ok (incoming (snd (sock_recv k c))))
         \<or> (\<exists>chunk. chunk \<noteq> [] \<and> length chunk \<le> k \<and> fst (sock_recv k c) = Inr chunk \<and>
              concat (incoming c) = chunk @ concat (incoming (snd (sock_recv k c))) \<and>
              chunks_ok (incoming (snd (sock_recv k c))))"
proof (cases "incoming c")
  case Nil
  then show ?thesis using assms by (simp add: sock_recv_def)
next
  case (Cons ch rest)
  show ?thesis
  proof (cases "ch = []")
    case True
    then show ?thesis using assms Cons by (auto simp: sock_recv_def chunks_ok_all_empty)
  next
    case False
    show ?thesis
    proof (cases "length ch \<le> k")
      case True
      then show ?thesis using assms Cons False by (auto simp: sock_recv_def)
    next
      case gt: False
      have "take k ch \<noteq> []" using assms False by (cases ch) auto
      moreover have "drop k ch \<noteq> []" using gt by simp
      ultimately show ?thesis using assms Cons False gt
        by (auto simp: sock_recv_def)
    qed
  qed
qed

lemma sock_recv_frame:
  "\<not> closed c \<Longrightarrow> \<not> closed (snd (sock_recv k c)) \<and> buffer (snd (sock_recv k c)) = buffer c \<and>
     outgoing (snd (sock_recv k c)) = outgoing c \<and> capacity (snd (sock_recv k c)) = capacity c"
  by (auto simp: sock_recv_def split: list.splits)

lemma recv_exact_loop_spec:
  "\<not> closed c \<Longrightarrow> chunks_ok (incoming c) \<Longrightarrow>
     \<not> closed (snd (recv_exact_loop n data c)) \<and>
     chunks_ok (incoming (snd (recv_exact_loop n data c))) \<and>
     outgoing (snd (recv_exact_loop n data c)) = outgoing c \<and>
     capacity (snd (recv_exact_loop n data c)) = capacity c \<and>
     buffer (snd (recv_exact_loop n data c)) = buffer c \<and>
     (if n \<le> int (length (concat (incoming c)))
      then fst (recv_exact_loop n data c) = Inr (data @ take (nat n) (concat (incoming c))) \<and>
           concat (incoming (snd (recv_exact_loop n data c))) = drop (nat n) (concat (incoming c))
      else fst (recv_exact_loop n data c) = Inl ConnectionError \<and>
           concat (incoming (snd (recv_exact_loop n data c))) = [])"
proof (induction n data c rule: recv_exact_loop.induct)
  case (1 n data c)
  show ?case
  proof (cases "n > 0")
    case False
    then have "recv_exact_loop n data c = (Inr data, c)"
      by (subst recv_exact_loop.simps) simp
    then show ?thesis using False "1.prems" by simp
  next
    case True
    define k where "k = min 4096 (nat n)"
    have kpos: "0 < k" using True by (simp add: k_def)
    define r where "r = sock_recv k c"
    have frame: "\<not> closed (snd r)" "buffer (snd r) = buffer c" "outgoing (snd r) = outgoing c"
      "capacity (snd r) = capacity c"
      using sock_recv_frame [OF "1.prems"(1), of k] by (simp_all add: r_def)
    from sock_recv_cases [OF "1.prems" kpos]
    consider (eof) "concat (incoming c) = []" "fst r = Inr []" "concat (incoming (snd r)) = []"
        "chunks_ok (incoming (snd r))"
      | (data) chunk where "chunk \<noteq> []" "length chunk \<le> k" "fst r = Inr chunk"
        "concat (incoming c) = chunk @ concat (incoming (snd r))" "chunks_ok (incoming (snd r))"
      unfolding r_def by blast
    then show ?thesis
    proof cases
      case eof
      obtain c' where sr: "sock_recv (min 4096 (nat n)) c = (Inr [], c')" and c': "c' = snd r"
        using eof(2) unfolding r_def k_def by (cases "sock_recv (min 4096 (nat n)) c") simp
      have "recv_exact_loop n data c = (Inl ConnectionError, snd r)"
        using True unfolding c' [symmetric]
        by (subst recv_exact_loop.simps) (simp add: sr)
      then show ?thesis using eof frame True by (simp del: concat_eq_Nil_conv)
    next
      case data
      have req: "r = (Inr chunk, snd r)" using data(3) by (cases r) simp
      obtain c' where sr: "sock_recv (min 4096 (nat n)) c = (Inr chunk, c')" and c': "c' = snd r"
        using data(3) unfolding r_def k_def by (cases "sock_recv (min 4096 (nat n)) c") simp
      have step: "recv_exact_loop n data c = recv_exact_loop (n - int (length chunk)) (data @ chunk) (snd r)"
        using True data(1) unfolding c' [symmetric]
        by (subst recv_exact_loop.simps) (simp add: sr)
      have IH: "\<not> closed (snd (recv_exact_loop (n - int (length chunk)) (data @ chunk) (snd r))) \<and>
     chunks_ok (incoming (snd (recv_exact_loop (n - int (length chunk)) (data @ chunk) (snd r)))) \<and>
     outgoing (snd (recv_exact_loop (n - int (length chunk)) (data @ chunk) (snd r))) = outgoing (snd r) \<and>
     capacity (snd (recv_exact_loop (n - int (length chunk)) (data @ chunk) (snd r))) = capacity (snd r) \<and>
     buffer (snd (recv_exact_loop (n - int (length chunk)) (data @ chunk) (snd r))) = buffer (snd r) \<and>
     (if n - int (length chunk) \<le> int (length (concat (incoming (snd r))))
      then fst (recv_exact_loop (n - int (length chunk)) (data @ chunk) (snd r)) = Inr ((data @ chunk) @ take (nat (n - int (length chunk))) (concat (incoming (snd r)))) \<and>
           concat (incoming (snd (recv_exact_loop (n - int (length chunk)) (data @ chunk) (snd r)))) = drop (nat (n - int (length chunk))) (concat (incoming (snd r)))
      else fst (recv_exact_loop (n - int (length chunk)) (data @ chunk) (snd r)) = Inl ConnectionError \<and>
           concat (incoming (snd (recv_exact_loop (n - int (length chunk)) (data @ chunk) (snd r)))) = [])"
        by (rule "1.IH" [OF True _ _ data(1), of "Inr chunk" "snd r"])
           (use req frame data in \<open>simp_all add: r_def k_def\<close>)
      have len: "int (length chunk) \<le> n" using data(2) True unfolding k_def by linarith
      have tk: "take (nat n) (chunk @ concat (incoming (snd r))) =
                chunk @ take (nat (n - int (length chunk))) (concat (incoming (snd r)))"
        using len by (simp add: nat_diff_distrib)
      have dr: "drop (nat n) (chunk @ concat (incoming (snd r))) =
                drop (nat (n - int (length chunk))) (concat (incoming (snd r)))"
        using len by (simp add: nat_diff_distrib)
      show ?thesis
        unfolding step data(4) tk dr using IH frame by (simp split: if_splits)
    qed
  qed
qed

lemma recv_exact_spec:
  assumes "\<not> closed c" "chunks_ok (incoming c)" "0 \<le> n"
  shows "\<not> closed (snd (recv_exact n c)) \<and>
     chunks_ok (incoming (snd (recv_exact n c))) \<and>
     outgoing (snd (recv_exact n c)) = outgoing c \<and>
     capacity (snd (recv_exact n c)) = capacity c \<and>
     (if nat n \<le> length (pending c)
      then fst (recv_exact n c) = Inr (take (nat n) (pending c)) \<and>
           pending (snd (recv_exact n c)) = drop (nat n) (pending c)
      else fst (recv_exact n c) = Inl ConnectionError \<and> pending (snd (recv_exact n c)) = [])"
proof (cases "buffer c = []")
  case True
  then have "recv_exact n c = recv_exact_loop n [] c" by (simp add: recv_exact_def)
  then show ?thesis
    using recv_exact_loop_spec [OF assms(1,2), of n "[]"] True assms(3)
    by (auto simp: pending_def split: if_splits)
next
  case False
  define t where "t = min n (int (length (buffer c)))"
  define c1 where "c1 = c\<lparr>buffer := del_to t (buffer c)\<rparr>"
  have t0: "0 \<le> t" using assms(3) by (simp add: t_def)
  have re: "recv_exact n c = recv_exact_loop (n - t) (slice_to t (buffer c)) c1"
    using False by (simp add: recv_exact_def t_def c1_def Let_def)
  have c1: "\<not> closed c1" "chunks_ok (incoming c1)" "incoming c1 = incoming c"
    "outgoing c1 = outgoing c" "capacity c1 = capacity c" "buffer c1 = drop (nat t) (buffer c)"
    using assms t0 by (simp_all add: c1_def del_to_def)
  have sl: "slice_to t (buffer c) = take (nat t) (buffer c)" using t0 by (simp add: slice_to_def)
  note L = recv_exact_loop_spec [OF c1(1,2), of "n - t" "slice_to t (buffer c)"]
  show ?thesis
  proof (cases "n \<le> int (length (buffer c))")
    case True
    then have tn: "t = n" by (simp add: t_def)
    have le: "nat n \<le> length (buffer c)" using True assms(3) by simp
    then have le': "nat n \<le> length (pending c)" by (simp add: pending_def)
    show ?thesis using L c1 sl le unfolding re tn
      by (simp add: pending_def le' [unfolded pending_def, simplified])
  next
    case gt: False
    then have t: "t = int (length (buffer c))" by (simp add: t_def)
    have eq: "(n - t \<le> int (length (concat (incoming c)))) = (nat n \<le> length (pending c))"
      using assms(3) by (auto simp: t pending_def)
    have n': "nat (n - int (length (buffer c))) = nat n - length (buffer c)"
      using assms(3) by (simp add: nat_diff_distrib)
    show ?thesis using L c1 sl gt eq unfolding re
      by (simp add: pending_def t n' split: if_splits)
  qed
qed

section \<open>Decoding text: ASCII bytes are kept, well-formed text is unchanged\<close>

lemma ascii_iff: "ascii c = ((of_char c :: nat) < 0x80)"
  by (simp add: ascii_def classify_def)

lemma ascii_not_cont: "ascii a \<Longrightarrow> \<not> is_cont a"
  by (simp add: ascii_iff is_cont_def)

lemma ascii_not_second: "ascii a \<Longrightarrow> \<not> second_ok ch a"
  by (simp add: second_ok_def ascii_not_cont)

lemma decode_replace_ascii_Cons: "ascii a \<Longrightarrow> decode_replace (a # ys) = a # decode_replace ys"
  by (simp add: ascii_def decode_step_def)

lemma decode_step_ascii_split:
  assumes "ascii a"
  shows "decode_step ch (s @ a # ys) = (fst (decode_step ch s), snd (decode_step ch s) @ a # ys)"
proof -
  note nc = ascii_not_cont [OF assms] ascii_not_second [OF assms]
  show ?thesis
  proof (cases "classify ch")
    case Lead3
    then show ?thesis using nc
      by (cases s; cases "tl s") (auto simp: decode_step_def)
  next
    case Lead4
    then show ?thesis using nc
      by (cases s; cases "tl s"; cases "tl (tl s)") (auto simp: decode_step_def)
  qed (use nc in \<open>auto simp: decode_step_def split: list.splits\<close>)
qed

lemma decode_replace_ascii_split:
  "ascii a \<Longrightarrow> decode_replace (xs @ a # ys) = decode_replace xs @ a # decode_replace ys"
proof (induction xs rule: decode_replace.induct)
  case 1
  then show ?case by (simp add: ascii_def decode_step_def)
next
  case (2 ch s)
  then show ?case by (simp add: decode_step_ascii_split)
qed

lemma decode_step_out:
  "set (fst (decode_step ch s)) \<subseteq> set U_FFFD \<union> set (ch # s)"
  by (cases "classify ch") (auto simp: decode_step_def split: list.splits if_splits)

lemma decode_step_ascii_kept:
  assumes "ascii a" "a \<in> set (ch # s)"
  shows "a \<in> set (fst (decode_step ch s)) \<or> a \<in> set (snd (decode_step ch s))"
proof -
  have nc: "\<And>b. is_cont b \<Longrightarrow> a \<noteq> b" "\<And>b c. second_ok c b \<Longrightarrow> a \<noteq> b"
    using ascii_not_cont [OF assms(1)] ascii_not_second [OF assms(1)] by auto
  have lead: "classify ch \<noteq> Ascii \<Longrightarrow> a \<noteq> ch" using assms(1) by (auto simp: ascii_def)
  show ?thesis
  proof (cases "classify ch")
    case Lead3
    then show ?thesis using nc lead assms(2)
      by (cases s; cases "tl s") (auto simp: decode_step_def)
  next
    case Lead4
    then show ?thesis using nc lead assms(2)
      by (cases s; cases "tl s"; cases "tl (tl s)") (auto simp: decode_step_def)
  qed (use nc lead assms(2) in \<open>auto simp: decode_step_def split: list.splits\<close>)
qed

lemma decode_step_rest: "set (snd (decode_step ch s)) \<subseteq> set s"
  by (cases "classify ch") (auto simp: decode_step_def split: list.splits if_splits)

lemma ascii_in_decode_replace:
  "ascii a \<Longrightarrow> (a \<in> set (decode_replace xs)) = (a \<in> set xs)"
proof (induction xs rule: decode_replace.induct)
  case 1
  then show ?case by simp
next
  case (2 ch s)
  note a = \<open>ascii a\<close>
  have U: "a \<notin> set U_FFFD" using a by (auto simp: U_FFFD_def ascii_iff)
  have IH: "(a \<in> set (decode_replace (snd (decode_step ch s)))) = (a \<in> set (snd (decode_step ch s)))"
    using 2 by simp
  show ?case
  proof
    assume "a \<in> set (decode_replace (ch # s))"
    then have "a \<in> set (fst (decode_step ch s)) \<or> a \<in> set (snd (decode_step ch s))"
      using IH by simp
    then show "a \<in> set (ch # s)"
      using decode_step_out [of ch s] decode_step_rest [of ch s] U by auto
  next
    assume "a \<in> set (ch # s)"
    then show "a \<in> set (decode_replace (ch # s))"
      using decode_step_ascii_kept [OF a, of ch s] IH by auto
  qed
qed

lemma well_formed_step:
  assumes "well_formed (ch # s)"
  shows "fst (decode_step ch s) @ snd (decode_step ch s) = ch # s \<and>
         well_formed (snd (decode_step ch s))"
proof (cases "classify ch")
  case Lead3
  then show ?thesis using assms
    by (cases s; cases "tl s") (auto simp: decode_step_def)
next
  case Lead4
  then show ?thesis using assms
    by (cases s; cases "tl s"; cases "tl (tl s)") (auto simp: decode_step_def)
qed (use assms in \<open>auto simp: decode_step_def split: list.splits\<close>)

lemma well_formed_fixed: "well_formed xs \<Longrightarrow> decode_replace xs = xs"
proof (induction xs rule: decode_replace.induct)
  case 1
  then show ?case by simp
next
  case (2 ch s)
  then show ?case using well_formed_step [of ch s] by simp
qed

lemma well_formed_ascii_Cons: "ascii a \<Longrightarrow> well_formed (a # xs) = well_formed xs"
  by (simp add: ascii_def)

lemma ascii_well_formed: "list_all ascii xs \<Longrightarrow> well_formed xs"
  by (induction xs) (auto simp: ascii_def)

section \<open>Broadcast: who receives the frame and who is removed\<close>

lemma sendall_accepts:
  "accepts b c \<Longrightarrow> fst (sendall b c) = None \<and> outgoing (snd (sendall b c)) = outgoing c @ b \<and>
     \<not> closed (snd (sendall b c)) \<and> incoming (snd (sendall b c)) = incoming c \<and>
     buffer (snd (sendall b c)) = buffer c \<and>
     capacity (snd (sendall b c)) = map_option (\<lambda>k. k - length b) (capacity c)"
  by (auto simp: accepts_def sendall_def split: option.splits)

lemma sendall_rejects: "\<not> accepts b c \<Longrightarrow> fst (sendall b c) \<noteq> None"
  by (auto simp: accepts_def sendall_def split: option.splits)

lemma accepts_append:
  "accepts (h @ p) c = (accepts h c \<and> accepts p (snd (sendall h c)))"
  by (auto simp: accepts_def sendall_def split: option.splits)

lemma send_frame_accepts:
  assumes "accepts (h @ p) c"
  shows "fst (send_frame h p c) = None" "outgoing (snd (send_frame h p c)) = outgoing c @ h @ p"
    "\<not> closed (snd (send_frame h p c))" "incoming (snd (send_frame h p c)) = incoming c"
    "buffer (snd (send_frame h p c)) = buffer c"
proof -
  have h: "accepts h c" and p: "accepts p (snd (sendall h c))"
    using assms by (simp_all add: accepts_append)
  obtain c1 where s1: "sendall h c = (None, c1)"
    using sendall_accepts [OF h] by (cases "sendall h c") simp
  show "fst (send_frame h p c) = None" "outgoing (snd (send_frame h p c)) = outgoing c @ h @ p"
    "\<not> closed (snd (send_frame h p c))" "incoming (snd (send_frame h p c)) = incoming c"
    "buffer (snd (send_frame h p c)) = buffer c"
    using sendall_accepts [OF h] sendall_accepts [OF p] s1
    by (simp_all add: send_frame_def)
qed

lemma send_frame_rejects:
  assumes "\<not> accepts (h @ p) c"
  shows "fst (send_frame h p c) \<noteq> None"
proof (cases "accepts h c")
  case False
  then obtain e c1 where "sendall h c = (Some e, c1)"
    using sendall_rejects [OF False] by (cases "sendall h c") auto
  then show ?thesis by (simp add: send_frame_def)
next
  case True
  then obtain c1 where s1: "sendall h c = (None, c1)"
    using sendall_accepts [OF True] by (cases "sendall h c") simp
  have np: "\<not> accepts p c1" using assms True s1 by (simp add: accepts_append)
  have "p \<noteq> []" using np True s1 sendall_accepts [OF True]
    by (auto simp: accepts_def split: option.splits)
  then show ?thesis using s1 sendall_rejects [OF np] by (simp add: send_frame_def)
qed

lemma remove_client_clients:
  "distinct (clients s) \<Longrightarrow> clients (remove_client c s) = filter (\<lambda>d. d \<noteq> c) (clients s)"
proof (cases "c \<in> set (clients s)")
  case True
  assume "distinct (clients s)"
  then have "remove1 c (clients s) = filter (\<lambda>d. d \<noteq> c) (clients s)"
    by (simp add: distinct_remove1_removeAll removeAll_filter_not_eq) (metis)
  then show ?thesis using True by (simp add: remove_client_def Let_def)
next
  case False
  then have "filter (\<lambda>d. d \<noteq> c) (clients s) = clients s" by (auto simp: filter_id_conv)
  then show ?thesis using False by (simp add: remove_client_def Let_def)
qed

lemma remove_client_closed: "closed (conns (remove_client c s) c)"
  by (simp add: remove_client_def Let_def close_def)

lemma send_to_accepts:
  assumes "accepts (h @ p) (conns s c)"
  shows "send_to c h p s = s\<lparr>conns := (conns s)(c := snd (send_frame h p (conns s c)))\<rparr>"
  using send_frame_accepts(1) [OF assms]
  by (cases "send_frame h p (conns s c)") (simp add: send_to_def)

lemma send_to_rejects:
  assumes "\<not> accepts (h @ p) (conns s c)"
  shows "send_to c h p s =
     remove_client c (s\<lparr>conns := (conns s)(c := snd (send_frame h p (conns s c))),
                        log := log s @ [BroadcastError c]\<rparr>)"
  using send_frame_rejects [OF assms]
  by (cases "send_frame h p (conns s c)") (auto simp: send_to_def)

lemma send_to_clients:
  "distinct (clients s) \<Longrightarrow>
   clients (send_to c h p s) = filter (\<lambda>d. d \<noteq> c \<or> accepts (h @ p) (conns s c)) (clients s)"
proof (cases "accepts (h @ p) (conns s c)")
  case True
  then show ?thesis by (simp add: send_to_accepts)
next
  case False
  assume "distinct (clients s)"
  then show ?thesis using False by (simp add: send_to_rejects remove_client_clients)
qed

lemma send_to_frame:
  "files (send_to c h p s) = files s \<and> free_space (send_to c h p s) = free_space s \<and>
   next_id (send_to c h p s) = next_id s"
  by (cases "accepts (h @ p) (conns s c)")
     (simp_all add: send_to_accepts send_to_rejects remove_client_def Let_def)

lemma send_each_frame:
  "files (send_each ts h p s) = files s \<and> free_space (send_each ts h p s) = free_space s \<and>
   next_id (send_each ts h p s) = next_id s"
  by (induction ts arbitrary: s) (simp_all add: send_to_frame)

lemma send_each_clients:
  "distinct ts \<Longrightarrow> distinct (clients s) \<Longrightarrow>
   clients (send_each ts h p s) =
     filter (\<lambda>d. d \<in> set ts \<longrightarrow> accepts (h @ p) (conns s d)) (clients s)"
proof (induction ts arbitrary: s)
  case Nil
  then show ?case by simp
next
  case (Cons c ts)
  let ?s1 = "send_to c h p s"
  have dts: "distinct ts" "c \<notin> set ts" using Cons.prems by simp_all
  have d1: "distinct (clients ?s1)" using Cons.prems by (simp add: send_to_clients)

  have same: "d \<noteq> c \<Longrightarrow> conns ?s1 d = conns s d" for d by (simp add: send_to_other)
  have same': "conns ?s1 d = conns s d" if "d \<in> set ts" for d
  proof -
    have "c \<noteq> d" using that dts by auto
    then show ?thesis by (rule send_to_other)
  qed
  have "clients (send_each (c # ts) h p s) =
      filter (\<lambda>d. d \<in> set ts \<longrightarrow> accepts (h @ p) (conns ?s1 d)) (clients ?s1)"
    using Cons.IH [OF dts(1) d1] by simp
  also have "\<dots> = filter (\<lambda>d. d \<in> set ts \<longrightarrow> accepts (h @ p) (conns ?s1 d))
      (filter (\<lambda>d. d \<noteq> c \<or> accepts (h @ p) (conns s c)) (clients s))"
    using Cons.prems by (simp add: send_to_clients)
  also have "\<dots> = filter (\<lambda>d. d \<in> set (c # ts) \<longrightarrow> accepts (h @ p) (conns s d)) (clients s)"
    unfolding filter_filter using same' by (intro filter_cong refl) auto
  finally show ?case .
qed

lemma send_each_target:
  "distinct ts \<Longrightarrow> d \<in> set ts \<Longrightarrow>
   conns (send_each ts h p s) d =
     (if accepts (h @ p) (conns s d) then snd (send_frame h p (conns s d))
      else close (snd (send_frame h p (conns s d))))"
proof (induction ts arbitrary: s)
  case Nil
  then show ?case by simp
next
  case (Cons c ts)
  show ?case
  proof (cases "d = c")
    case True
    then have "d \<notin> set ts" using Cons.prems by simp
    then have "conns (send_each (c # ts) h p s) d = conns (send_to c h p s) d"
      by (simp add: send_each_other)
    then show ?thesis using True
      by (cases "accepts (h @ p) (conns s c)")
         (simp_all add: send_to_accepts send_to_rejects remove_client_def Let_def)
  next
    case False
    then have "d \<in> set ts" "distinct ts" using Cons.prems by simp_all
    then show ?thesis using Cons.IH [of "send_to c h p s"] False by (simp add: send_to_other)
  qed
qed

section \<open>Header lines, decimal numerals and int()\<close>

lemma first_line_exact: "NL \<notin> set line \<Longrightarrow> first_line (line @ NL # rest) = line @ [NL]"
  by (induction line) (auto simp: first_line_def)

lemma after_line_exact: "NL \<notin> set line \<Longrightarrow> after_line (line @ NL # rest) = rest"
  by (induction line) (auto simp: after_line_def)

lemma ascii_NL: "ascii NL" and ascii_BAR: "ascii BAR"
  by (simp_all add: ascii_iff)

lemma rstrip_nl_snoc: "NL \<notin> set s \<Longrightarrow> rstrip_nl (s @ [NL]) = s"
proof -
  assume "NL \<notin> set s"
  then have "dropWhile (\<lambda>c. c = NL) (rev s) = rev s"
    by (cases "rev s") (auto simp: rev_eq_Cons_iff)
  then show ?thesis by (simp add: rstrip_nl_def)
qed

lemma header_of_line:
  "NL \<notin> set line \<Longrightarrow> rstrip_nl (decode_replace (line @ [NL])) = decode_replace line"
proof -
  assume nl: "NL \<notin> set line"
  have "decode_replace (line @ [NL]) = decode_replace line @ [NL]"
    using decode_replace_ascii_split [OF ascii_NL, of line "[]"] by simp
  moreover have "NL \<notin> set (decode_replace line)"
    using nl by (simp add: ascii_in_decode_replace [OF ascii_NL])
  ultimately show ?thesis by (simp add: rstrip_nl_snoc)
qed

lemma recv_line_header:
  assumes "\<not> closed c" "chunks_ok (incoming c)" "pending c = line @ NL # rest" "NL \<notin> set line"
  shows "fst (recv_line c) = Inr (decode_replace (line @ [NL]))"
    and "pending (snd (recv_line c)) = rest"
    and "\<not> closed (snd (recv_line c))" and "chunks_ok (incoming (snd (recv_line c)))"
    and "outgoing (snd (recv_line c)) = outgoing c" and "capacity (snd (recv_line c)) = capacity c"
  using recv_line_spec [OF assms(1,2)] assms(3,4)
  by (simp_all add: first_line_exact after_line_exact)

lemma split_on_no_sep: "sep \<notin> set xs \<Longrightarrow> split_on sep xs = [xs]"
  by (induction xs) auto

lemma split_on_append:
  "sep \<notin> set xs \<Longrightarrow> split_on sep (xs @ sep # ys) = xs # split_on sep ys"
  by (induction xs) auto

lemma split_on_nonempty: "split_on sep xs \<noteq> []"
  by (induction xs) (auto split: list.splits)

lemma is_digit_digit_char: "d < 10 \<Longrightarrow> is_digit (digit_char d)"
  by (simp add: is_digit_def of_char_digit_char)

lemma digit_val_digit_char: "d < 10 \<Longrightarrow> digit_val (digit_char d) = d"
  by (simp add: digit_val_def of_char_digit_char)

lemma str_nat_digits: "list_all is_digit (str_nat k)"
proof (induction k rule: str_nat.induct)
  case (1 n)
  show ?case
  proof (cases "n < 10")
    case True
    then show ?thesis by (subst str_nat.simps) (simp add: is_digit_digit_char)
  next
    case False
    then show ?thesis using 1 by (subst str_nat.simps) (simp add: is_digit_digit_char)
  qed
qed

lemma digits_value_str_nat: "digits_value 0 (str_nat k) = k"
proof (induction k rule: str_nat.induct)
  case (1 n)
  show ?case
  proof (cases "n < 10")
    case True
    then show ?thesis by (subst str_nat.simps) (simp add: digits_value_def digit_val_digit_char)
  next
    case False
    then have "digits_value 0 (str_nat (n div 10)) = n div 10" using 1 by simp
    then show ?thesis using False
      by (subst str_nat.simps) (simp add: digits_value_def digit_val_digit_char)
  qed
qed

lemma scan_digits_all:
  "list_all is_digit ds \<Longrightarrow> scan_digits acc ds = Some (digits_value acc ds, [])"
  by (induction ds arbitrary: acc) (simp_all add: digits_value_def)

lemma is_digit_not_space: "is_digit c \<Longrightarrow> \<not> py_isspace c"
  by (auto simp: is_digit_def py_isspace_def)

lemma is_digit_not_sign: "is_digit c \<Longrightarrow> c \<noteq> CHR ''+'' \<and> c \<noteq> CHR ''-''"
  by (auto simp: is_digit_def)

lemma py_int_digits:
  assumes "list_all is_digit ds" "ds \<noteq> []"
  shows "py_int ds = Inr (int (digits_value 0 ds))"
proof -
  obtain d r where ds: "ds = d # r" using assms(2) by (cases ds) auto
  have d: "is_digit d" and r: "list_all is_digit r" using assms(1) ds by simp_all
  have "scan_digits (digit_val d) r = Some (digits_value 0 ds, [])"
    using scan_digits_all [OF r, of "digit_val d"] by (simp add: ds digits_value_def)
  moreover have "list_all (\<lambda>c. (of_char c :: nat) < 0x80) ds"
    using assms(1) by (auto simp: list_all_iff is_digit_def)
  ultimately show ?thesis
    using d is_digit_not_space [OF d] is_digit_not_sign [OF d]
    by (simp add: py_int_def long_from_string_def ds)
qed

lemma py_int_str_nat: "py_int (str_nat k) = Inr (int k)"
  using py_int_digits [OF str_nat_digits str_nat_nonempty, of k]
  by (simp add: digits_value_str_nat)

lemma is_digit_ascii: "is_digit c \<Longrightarrow> ascii c"
  by (simp add: is_digit_def ascii_iff)

lemma digits_clean:
  assumes "list_all is_digit ds"
  shows "NL \<notin> set ds" "BAR \<notin> set ds" "CHR 0x00 \<notin> set ds" "list_all ascii ds"
proof -
  have "\<not> is_digit NL" "\<not> is_digit BAR" "\<not> is_digit (CHR 0x00)" by (simp_all add: is_digit_def)
  then show "NL \<notin> set ds" "BAR \<notin> set ds" "CHR 0x00 \<notin> set ds"
    using assms by (auto simp: list_all_iff)
  show "list_all ascii ds" using assms by (auto simp: list_all_iff is_digit_ascii)
qed

section \<open>Decoding one frame\<close>

lemma recv_line_header_eq:
  assumes "\<not> closed c" "chunks_ok (incoming c)" "pending c = line @ NL # rest" "NL \<notin> set line"
  shows "recv_line c = (Inr (decode_replace (line @ [NL])), snd (recv_line c))"
  using recv_line_header(1) [OF assms] by (cases "recv_line c") simp

lemma read_frame_unknown:
  assumes "\<not> closed c" "chunks_ok (incoming c)" "pending c = line @ NL # rest" "NL \<notin> set line"
    and "\<not> startswith (decode_replace line) ''MSG|''"
    and "\<not> startswith (decode_replace line) ''FILE|''"
  shows "read_frame c = (Inr (UnknownHeader (decode_replace line)), snd (recv_line c))"
  using assms(5,6) header_of_line [OF assms(4)]
  by (subst read_frame_def, subst recv_line_header_eq [OF assms(1-4)]) simp

lemma read_frame_bad_file_header:
  assumes "\<not> closed c" "chunks_ok (incoming c)" "pending c = line @ NL # rest" "NL \<notin> set line"
    and "\<not> startswith (decode_replace line) ''MSG|''"
    and "startswith (decode_replace line) ''FILE|''"
    and "length (split_on BAR (decode_replace line)) \<noteq> 3"
  shows "read_frame c = (Inr (BadFileHeader (decode_replace line)), snd (recv_line c))"
  using assms(5,6,7) header_of_line [OF assms(4)]
  by (subst read_frame_def, subst recv_line_header_eq [OF assms(1-4)]) simp

lemma read_frame_bad_size:
  assumes "\<not> closed c" "chunks_ok (incoming c)" "pending c = line @ NL # rest" "NL \<notin> set line"
    and "\<not> startswith (decode_replace line) ''MSG|''"
    and "startswith (decode_replace line) ''FILE|''"
    and "split_on BAR (decode_replace line) = [tag, filename, size_str]"
    and "py_int size_str = Inl e"
  shows "read_frame c = (Inr (BadSize size_str), snd (recv_line c))"
  using assms(5-8) header_of_line [OF assms(4)]
  by (subst read_frame_def, subst recv_line_header_eq [OF assms(1-4)]) simp

lemma read_frame_file:
  assumes "\<not> closed c" "chunks_ok (incoming c)" "pending c = line @ NL # rest" "NL \<notin> set line"
    and "\<not> startswith (decode_replace line) ''MSG|''"
    and "startswith (decode_replace line) ''FILE|''"
    and "split_on BAR (decode_replace line) = [tag, filename, size_str]"
    and "py_int size_str = Inr n"
  shows "read_frame c =
     (case recv_exact n (snd (recv_line c)) of
        (Inl e, c2) \<Rightarrow> (Inl e, c2)
      | (Inr data, c2) \<Rightarrow> (Inr (Frame (FileTransfer filename n data)), c2))"
  using assms(5-8) header_of_line [OF assms(4)]
  by (subst read_frame_def, subst recv_line_header_eq [OF assms(1-4)]) simp

lemma split_once_MSG: "split_once BAR (''MSG|'' @ text) = [''MSG'', text]"
  by (simp add: split_once_def)

lemma read_frame_msg:
  assumes "\<not> closed c" "chunks_ok (incoming c)" "pending c = line @ NL # rest" "NL \<notin> set line"
    and "decode_replace line = ''MSG|'' @ text"
  shows "read_frame c = (Inr (Frame (Message text)), snd (recv_line c))"
proof -
  have sw: "startswith (decode_replace line) ''MSG|''" by (simp add: assms(5) startswith_def)
  have sp: "split_once BAR (decode_replace line) = [''MSG'', text]"
    unfolding assms(5) by (rule split_once_MSG)
  show ?thesis
    using sw sp header_of_line [OF assms(4)]
    by (subst read_frame_def, subst recv_line_header_eq [OF assms(1-4)]) simp
qed

lemma decode_MSG: "decode_replace (''MSG|'' @ text) = ''MSG|'' @ decode_replace text"
  by (simp add: decode_step_def classify_def)

lemma decode_FILE:
  "decode_replace (''FILE|'' @ name @ BAR # size_str) =
     ''FILE|'' @ decode_replace name @ BAR # decode_replace size_str"
  by (simp add: decode_step_def classify_def decode_replace_ascii_split [OF ascii_BAR])

lemma split_FILE:
  assumes "BAR \<notin> set name" "BAR \<notin> set size_str"
  shows "split_on BAR (''FILE|'' @ name @ BAR # size_str) = [''FILE'', name, size_str]"
proof -
  have "split_on BAR (''FILE'' @ BAR # name @ BAR # size_str) =
      ''FILE'' # split_on BAR (name @ BAR # size_str)"
    by (rule split_on_append) simp
  then show ?thesis using assms by (simp add: split_on_append split_on_no_sep)
qed

lemma read_frame_roundtrip:
  assumes "\<not> closed c" "chunks_ok (incoming c)" "valid_frame f"
    and "pending c = encode_frame f @ rest"
  shows "fst (read_frame c) = Inr (Frame f) \<and> pending (snd (read_frame c)) = rest \<and>
         \<not> closed (snd (read_frame c)) \<and> chunks_ok (incoming (snd (read_frame c))) \<and>
         outgoing (snd (read_frame c)) = outgoing c \<and> capacity (snd (read_frame c)) = capacity c"
proof (cases f)
  case (Message msg)
  define line where "line = ''MSG|'' @ msg"
  have nl: "NL \<notin> set line" using assms(3) Message by (simp add: line_def)
  have pend: "pending c = line @ NL # rest" using assms(4) Message by (simp add: line_def)
  have dec: "decode_replace line = ''MSG|'' @ msg"
    using assms(3) Message unfolding line_def decode_MSG by (simp add: well_formed_fixed)
  note H = recv_line_header [OF assms(1,2) pend nl]
  show ?thesis
    using read_frame_msg [OF assms(1,2) pend nl dec] H Message by simp
next
  case (FileTransfer filename n payload)
  define k where "k = length payload"
  have n: "n = int k" and wf: "well_formed filename" and fnl: "NL \<notin> set filename"
    and fbar: "BAR \<notin> set filename"
    using assms(3) FileTransfer by (simp_all add: k_def)
  have ps: "py_str n = str_nat k" by (simp add: py_str_def n)
  note dg = digits_clean [OF str_nat_digits, of k]
  define line where "line = ''FILE|'' @ filename @ BAR # str_nat k"
  have nl: "NL \<notin> set line" using fnl dg(1) by (simp add: line_def)
  have pend: "pending c = line @ NL # (payload @ rest)"
    using assms(4) FileTransfer ps by (simp add: line_def)
  have dec: "decode_replace line = line"
    unfolding line_def decode_FILE
    using wf dg(4) by (simp add: well_formed_fixed ascii_well_formed)
  have notmsg: "\<not> startswith (decode_replace line) ''MSG|''"
    unfolding dec by (simp add: line_def startswith_def)
  have isfile: "startswith (decode_replace line) ''FILE|''"
    unfolding dec by (simp add: line_def startswith_def)
  have "split_on BAR line = [''FILE'', filename, str_nat k]"
    unfolding line_def using fbar dg(2) by (rule split_FILE)
  then have sp: "split_on BAR (decode_replace line) = [''FILE'', filename, str_nat k]"
    by (simp only: dec)
  have pi: "py_int (str_nat k) = Inr n" by (simp add: py_int_str_nat n)
  note H = recv_line_header [OF assms(1,2) pend nl]
  note RF = read_frame_file [OF assms(1,2) pend nl notmsg isfile sp pi]
  have n0: "0 \<le> n" by (simp add: n)
  note E = recv_exact_spec [OF H(3,4) n0]
  have le: "nat n \<le> length (pending (snd (recv_line c)))" by (simp add: H(2) n k_def)
  obtain r2 c2 where re: "recv_exact n (snd (recv_line c)) = (r2, c2)"
    by (cases "recv_exact n (snd (recv_line c))")
  have r2: "r2 = Inr payload" and c2: "pending c2 = rest" "\<not> closed c2" "chunks_ok (incoming c2)"
    "outgoing c2 = outgoing c" "capacity c2 = capacity c"
    using E le re H by (simp_all add: n k_def)
  show ?thesis
    using RF re r2 c2 FileTransfer by simp
qed

section \<open>Claim C1: the results do not depend on the chunking\<close>

lemma run_calls_pending:
  assumes "\<not> closed c1" "chunks_ok (incoming c1)" "\<not> closed c2" "chunks_ok (incoming c2)"
    and "pending c1 = pending c2" and "list_all nonneg calls"
  shows "run_calls calls c1 = run_calls calls c2"
  using assms
proof (induction calls arbitrary: c1 c2)
  case Nil
  then show ?case by simp
next
  case (Cons x calls)
  show ?case
  proof (cases x)
    case ReadLine
    note A = recv_line_spec [OF Cons.prems(1,2)] and B = recv_line_spec [OF Cons.prems(3,4)]
    have r: "fst (recv_line c1) = fst (recv_line c2)"
      and p: "pending (snd (recv_line c1)) = pending (snd (recv_line c2))"
      using A B Cons.prems(5) by (auto split: if_splits)
    have "run_calls calls (snd (recv_line c1)) = run_calls calls (snd (recv_line c2))"
      using A B p Cons.prems(6) by (intro Cons.IH) simp_all
    then show ?thesis using r ReadLine by simp
  next
    case (ReadExact n)
    then have n: "0 \<le> n" using Cons.prems(6) by simp
    note A = recv_exact_spec [OF Cons.prems(1,2) n] and B = recv_exact_spec [OF Cons.prems(3,4) n]
    have r: "fst (recv_exact n c1) = fst (recv_exact n c2)"
      and p: "pending (snd (recv_exact n c1)) = pending (snd (recv_exact n c2))"
      using A B Cons.prems(5) by (auto split: if_splits)
    have "run_calls calls (snd (recv_exact n c1)) = run_calls calls (snd (recv_exact n c2))"
      using A B p Cons.prems(6) by (intro Cons.IH) simp_all
    then show ?thesis using r ReadExact by simp
  qed
qed

text \<open>
  C1. For every byte sequence, every partition of it into non-empty chunks and every
  sequence of \<open>read_line\<close> and \<open>read_exact(n)\<close> calls (\<open>n\<close> a count of bytes, \<open>n \<ge> 0\<close>, as the
  contract of \<open>read_exact\<close> has it), a fresh Stream Reader returns the same results
  (lines, byte slices and failures, at the same points) as when the whole sequence
  arrives in one chunk.
\<close>

theorem chunking_invariance:
  assumes "[] \<notin> set chunks" and "list_all nonneg calls"
  shows "run_calls calls (Connection chunks cap) = run_calls calls (Connection [concat chunks] cap)"
proof (rule run_calls_pending)
  show "chunks_ok (incoming (Connection chunks cap))"
    using assms(1) by (simp add: Connection_def chunks_ok_no_empty)
  show "chunks_ok (incoming (Connection [concat chunks] cap))"
    by (simp add: Connection_def)
  show "pending (Connection chunks cap) = pending (Connection [concat chunks] cap)"
    by (simp add: Connection_def pending_def)
qed (use assms(2) in \<open>simp_all add: Connection_def\<close>)

theorem chunking_invariance_witness:
  "[] \<notin> set [''MSG|h'', ''i\<newline>FILE|a|2'', ''\<newline>xyz''] \<and>
   list_all nonneg [ReadLine, ReadLine, ReadExact 2, ReadLine] \<and>
   run_calls [ReadLine, ReadLine, ReadExact 2, ReadLine]
     (Connection [''MSG|h'', ''i\<newline>FILE|a|2'', ''\<newline>xyz''] None) =
   run_calls [ReadLine, ReadLine, ReadExact 2, ReadLine]
     (Connection [concat [''MSG|h'', ''i\<newline>FILE|a|2'', ''\<newline>xyz'']] None) \<and>
   run_calls [ReadLine, ReadLine, ReadExact 2, ReadLine]
     (Connection [concat [''MSG|h'', ''i\<newline>FILE|a|2'', ''\<newline>xyz'']] None) =
   [Inr ''MSG|hi\<newline>'', Inr ''FILE|a|2\<newline>'', Inr ''xy'', Inl ConnectionError]"
proof -
  have h1: "[] \<notin> set [''MSG|h'', ''i\<newline>FILE|a|2'', ''\<newline>xyz'']" by simp
  have h2: "list_all nonneg [ReadLine, ReadLine, ReadExact 2, ReadLine]" by simp
  have v: "run_calls [ReadLine, ReadLine, ReadExact 2, ReadLine]
      (Connection [''MSG|h'', ''i\<newline>FILE|a|2'', ''\<newline>xyz''] None) =
    [Inr ''MSG|hi\<newline>'', Inr ''FILE|a|2\<newline>'', Inr ''xy'', Inl ConnectionError]"
    by (simp add: eval_defs)
  note T = chunking_invariance [OF h1 h2, of None]
  have w: "run_calls [ReadLine, ReadLine, ReadExact 2, ReadLine]
      (Connection [concat [''MSG|h'', ''i\<newline>FILE|a|2'', ''\<newline>xyz'']] None) =
    [Inr ''MSG|hi\<newline>'', Inr ''FILE|a|2\<newline>'', Inr ''xy'', Inl ConnectionError]"
    unfolding T [symmetric] by (rule v)
  show ?thesis by (intro conjI) (rule h1, rule h2, rule T, rule w)
qed

section \<open>Zero-length reads and the resolved save path\<close>

lemma recv_exact_zero: "recv_exact 0 c = (Inr [], c)"
  by (simp add: recv_exact_def recv_exact_loop.simps slice_to_def del_to_def)

lemma recv_exact_negative:
  "n < 0 \<Longrightarrow> recv_exact n c = (Inr (slice_to n (buffer c)), c\<lparr>buffer := del_to n (buffer c)\<rparr>)"
  by (simp add: recv_exact_def recv_exact_loop.simps min_def slice_to_def del_to_def)

lemma find_free_is_candidate: "\<exists>j. find_free fs root ext idx = candidate_path root ext j"
proof (induction fs root ext idx rule: find_free.induct)
  case (1 fs root ext idx)
  show ?case
  proof (cases "path_exists fs (candidate_path root ext idx)")
    case True
    then show ?thesis using 1 by (subst find_free.simps) simp
  next
    case False
    then show ?thesis by (subst find_free.simps) auto
  qed
qed

lemma basename_subset: "set (basename p) \<subseteq> set p"
  using set_takeWhileD by (fastforce simp: basename_def)

lemma splitext_subset: "set (fst (splitext p)) \<subseteq> set p \<and> set (snd (splitext p)) \<subseteq> set p"
  by (auto simp: splitext_def Let_def dest: in_set_takeD in_set_dropD)

lemma unique_save_path_no_NUL:
  assumes "CHR 0x00 \<notin> set filename"
  shows "CHR 0x00 \<notin> set (unique_save_path fs filename)"
proof -
  let ?base = "basename filename"
  have b: "CHR 0x00 \<notin> set ?base" using assms basename_subset by blast
  then have r: "CHR 0x00 \<notin> set (fst (splitext ?base))" and e: "CHR 0x00 \<notin> set (snd (splitext ?base))"
    using splitext_subset [of ?base] by blast+
  have c: "CHR 0x00 \<notin> set (candidate_path (fst (splitext ?base)) (snd (splitext ?base)) j)" for j
    using r e digits_clean(3) [OF str_nat_digits, of j]
    by (simp add: candidate_path_def RECV_DIR_def)
  obtain j where "find_free fs (fst (splitext ?base)) (snd (splitext ?base)) 1 =
      candidate_path (fst (splitext ?base)) (snd (splitext ?base)) j"
    using find_free_is_candidate by blast
  then show ?thesis using b c [of j]
    by (simp add: unique_save_path_def Let_def RECV_DIR_def)
qed

lemma write_file_ok:
  "open_error path = None \<Longrightarrow> length data \<le> free_space s \<Longrightarrow>
   write_file path data s =
     (None, s\<lparr>files := (path, data) # files s, free_space := free_space s - length data\<rparr>)"
  by (simp add: write_file_def)

lemma write_file_refused:
  "open_error path = Some e \<Longrightarrow> write_file path data s = (Some e, s)"
  by (simp add: write_file_def)

lemma handle_step_read:
  "read_frame (conns s a) = (Inr d, c') \<Longrightarrow>
   handle_step a s = dispatch a d (s\<lparr>conns := (conns s)(a := c')\<rparr>)"
  by (simp add: handle_step_def)

section \<open>The registry during a session\<close>

lemma broadcast_clients:
  assumes "distinct (clients s)"
  shows "clients (broadcast a h p s) =
     filter (\<lambda>d. d = a \<or> accepts (h @ p) (conns s d)) (clients s)"
proof -
  have "clients (broadcast a h p s) =
      filter (\<lambda>d. d \<in> set (filter (\<lambda>c. c \<noteq> a) (clients s)) \<longrightarrow> accepts (h @ p) (conns s d)) (clients s)"
    unfolding broadcast_def using assms by (intro send_each_clients) simp_all
  also have "\<dots> = filter (\<lambda>d. d = a \<or> accepts (h @ p) (conns s d)) (clients s)"
    by (intro filter_cong refl) auto
  finally show ?thesis .
qed

lemma broadcast_target:
  assumes "distinct (clients s)" "d \<in> set (clients s)" "d \<noteq> a"
  shows "conns (broadcast a h p s) d =
     (if accepts (h @ p) (conns s d) then snd (send_frame h p (conns s d))
      else close (snd (send_frame h p (conns s d))))"
  unfolding broadcast_def using assms by (intro send_each_target) simp_all

lemma broadcast_other:
  "d \<notin> set (clients s) \<or> d = a \<Longrightarrow> conns (broadcast a h p s) d = conns s d"
  unfolding broadcast_def by (intro send_each_other) auto

lemma broadcast_frame:
  "files (broadcast a h p s) = files s \<and> free_space (broadcast a h p s) = free_space s \<and>
   next_id (broadcast a h p s) = next_id s"
  by (simp add: broadcast_def send_each_frame)

lemma broadcast_distinct: "distinct (clients s) \<Longrightarrow> distinct (clients (broadcast a h p s))"
  by (simp add: broadcast_clients)

lemma broadcast_subset: "distinct (clients s) \<Longrightarrow> set (clients (broadcast a h p s)) \<subseteq> set (clients s)"
  by (auto simp: broadcast_clients)

lemma write_file_clients: "clients (snd (write_file path data s)) = clients s"
  by (simp add: write_file_def split: option.splits)

lemma dispatch_distinct:
  assumes "distinct (clients s)"
  shows "distinct (clients (snd (dispatch a d s))) \<and>
         set (clients (snd (dispatch a d s))) \<subseteq> set (clients s)"
proof (cases d)
  case (Frame f)
  show ?thesis
  proof (cases f)
    case (Message msg)
    have "distinct (clients (emit (MsgLog a msg) s))" using assms by (simp add: emit_def)
    then show ?thesis using Frame Message
        broadcast_distinct [of "emit (MsgLog a msg) s"] broadcast_subset [of "emit (MsgLog a msg) s"]
      by (simp add: dispatch_def) (simp add: emit_def)
  next
    case (FileTransfer filename n data)
    let ?path = "unique_save_path (files s) filename"
    obtain e s1 where w: "write_file ?path data s = (e, s1)" by (cases "write_file ?path data s")
    then have c1: "clients s1 = clients s" using write_file_clients [of ?path data s] by simp
    show ?thesis
    proof (cases e)
      case None
      have "distinct (clients (emit (FileLog a ?path n) s1))" using assms c1 by (simp add: emit_def)
      then show ?thesis using Frame FileTransfer w None c1
          broadcast_distinct [of "emit (FileLog a ?path n) s1"]
          broadcast_subset [of "emit (FileLog a ?path n) s1"]
        by (simp add: dispatch_def Let_def) (simp add: emit_def)
    next
      case (Some err)
      then show ?thesis using Frame FileTransfer w c1 assms by (simp add: dispatch_def Let_def)
    qed
  qed
qed (use assms in \<open>simp_all add: dispatch_def emit_def\<close>)

lemma handle_step_distinct:
  assumes "distinct (clients s)"
  shows "distinct (clients (snd (handle_step a s))) \<and>
         set (clients (snd (handle_step a s))) \<subseteq> set (clients s)"
proof -
  obtain r c' where rf: "read_frame (conns s a) = (r, c')" by (cases "read_frame (conns s a)")
  show ?thesis
  proof (cases r)
    case (Inl e)
    then show ?thesis using rf assms by (simp add: handle_step_def)
  next
    case (Inr d)
    have "distinct (clients (s\<lparr>conns := (conns s)(a := c')\<rparr>))" using assms by simp
    from dispatch_distinct [OF this, of a d] show ?thesis
      using rf Inr by (simp add: handle_step_def)
  qed
qed

lemma handle_loop_distinct:
  "distinct (clients s) \<Longrightarrow>
   distinct (clients (snd (handle_loop a s))) \<and> set (clients (snd (handle_loop a s))) \<subseteq> set (clients s)"
proof (induction a s rule: handle_loop.induct)
  case (1 conn s)
  obtain fl s' where hs: "handle_step conn s = (fl, s')" by (cases "handle_step conn s")
  have d': "distinct (clients s')" and sub: "set (clients s') \<subseteq> set (clients s)"
    using handle_step_distinct [OF "1.prems", of conn] hs by simp_all
  show ?case
  proof (cases fl)
    case Continue
    have "handle_loop conn s = handle_loop conn s'"
      using hs Continue by (subst handle_loop.simps) simp
    moreover have "distinct (clients (snd (handle_loop conn s'))) \<and>
        set (clients (snd (handle_loop conn s'))) \<subseteq> set (clients s')"
      using "1.IH" [OF hs [unfolded Continue, symmetric] refl d'] by simp
    ultimately show ?thesis using sub by auto
  next
    case (Raise e)
    have "handle_loop conn s = (e, s')"
      using hs Raise by (subst handle_loop.simps) simp
    then show ?thesis using d' sub by simp
  qed
qed

lemma remove_client_absent:
  "distinct (clients s) \<Longrightarrow> c \<notin> set (clients (remove_client c s))"
  by (simp add: remove_client_clients)

lemma handle_client_cleanup:
  assumes "distinct (clients s)"
  shows "a \<notin> set (clients (snd (handle_client a s))) \<and> closed (conns (snd (handle_client a s)) a)"
proof -
  obtain e s1 where hl: "handle_loop a s = (e, s1)" by (cases "handle_loop a s")
  have d1: "distinct (clients s1)" using handle_loop_distinct [OF assms, of a] hl by simp
  then have d2: "distinct (clients (emit (ClosedLog a) s1))" by (simp add: emit_def)
  show ?thesis
    using hl remove_client_absent [OF d1, of a] remove_client_absent [OF d2, of a]
      remove_client_closed [of a s1] remove_client_closed [of a "emit (ClosedLog a) s1"]
    by (simp add: handle_client_def)
qed

lemma handle_loop_raise:
  "handle_step a s = (Raise e, s') \<Longrightarrow> handle_loop a s = (e, s')"
  by (subst handle_loop.simps) simp

lemma handle_loop_continue:
  "handle_step a s = (Continue, s') \<Longrightarrow> handle_loop a s = handle_loop a s'"
  by (subst handle_loop.simps) simp

section \<open>Claim C7: the peer closes the stream\<close>

lemma read_frame_error:
  "fst (read_frame (conns s a)) = Inl e \<Longrightarrow>
   handle_step a s = (Raise e, s\<lparr>conns := (conns s)(a := snd (read_frame (conns s a)))\<rparr>)"
  by (cases "read_frame (conns s a)") (simp add: handle_step_def)

text \<open>
  C7. On an open connection whose transport returns zero bytes only at the end of the
  stream, \<open>read_line\<close> fails, with \<open>ConnectionError\<close>, exactly when the bytes still to come
  hold no delimiter, and \<open>read_exact(n)\<close> exactly when fewer than \<open>n\<close> bytes are still to
  come. A read that fails so ends the session of that connection: the handler logs it,
  no exception leaves the handler, and the connection is unregistered and closed, as it
  is at the end of every session.
\<close>

theorem connection_closed:
  assumes "\<not> closed c" and "chunks_ok (incoming c)" and "distinct (clients s)"
  shows "(if NL \<in> set (pending c)
          then fst (recv_line c) = Inr (decode_replace (first_line (pending c)))
          else fst (recv_line c) = Inl ConnectionError) \<and>
         (if n \<le> int (length (pending c))
          then \<exists>data. fst (recv_exact n c) = Inr data
          else fst (recv_exact n c) = Inl ConnectionError) \<and>
         (fst (read_frame (conns s a)) = Inl ConnectionError \<longrightarrow>
            handle_client a s =
              (None, remove_client a (emit (ClosedLog a)
                 (s\<lparr>conns := (conns s)(a := snd (read_frame (conns s a)))\<rparr>)))) \<and>
         a \<notin> set (clients (snd (handle_client a s))) \<and>
         closed (conns (snd (handle_client a s)) a)"
proof (intro conjI impI)
  show "if NL \<in> set (pending c)
        then fst (recv_line c) = Inr (decode_replace (first_line (pending c)))
        else fst (recv_line c) = Inl ConnectionError"
    using recv_line_spec [OF assms(1,2)] by (simp split: if_splits)
  show "if n \<le> int (length (pending c))
        then \<exists>data. fst (recv_exact n c) = Inr data
        else fst (recv_exact n c) = Inl ConnectionError"
  proof (cases "0 \<le> n")
    case True
    then have "(n \<le> int (length (pending c))) = (nat n \<le> length (pending c))" by auto
    then show ?thesis using recv_exact_spec [OF assms(1,2) True] by (simp split: if_splits)
  next
    case False
    then show ?thesis by (simp add: recv_exact_negative)
  qed
  show "a \<notin> set (clients (snd (handle_client a s)))" "closed (conns (snd (handle_client a s)) a)"
    using handle_client_cleanup [OF assms(3)] by simp_all
next
  assume "fst (read_frame (conns s a)) = Inl ConnectionError"
  then have "handle_loop a s =
      (ConnectionError, s\<lparr>conns := (conns s)(a := snd (read_frame (conns s a)))\<rparr>)"
    by (intro handle_loop_raise read_frame_error)
  then show "handle_client a s =
      (None, remove_client a (emit (ClosedLog a)
         (s\<lparr>conns := (conns s)(a := snd (read_frame (conns s a)))\<rparr>)))"
    by (simp add: handle_client_def)
qed

theorem connection_closed_witness:
  "fst (recv_line (Connection [''ab'', ''c''] None)) = Inl ConnectionError \<and>
   fst (recv_exact 5 (Connection [''ab'', ''c''] None)) = Inl ConnectionError \<and>
   fst (handle_client 0 (example_server [''MSG|h'', ''i''])) = None \<and>
   0 \<notin> set (clients (snd (handle_client 0 (example_server [''MSG|h'', ''i''])))) \<and>
   closed (conns (snd (handle_client 0 (example_server [''MSG|h'', ''i'']))) 0)"
proof -
  let ?c = "Connection [''ab'', ''c''] None"
  let ?s = "example_server [''MSG|h'', ''i'']"
  have h1: "\<not> closed ?c" by (simp add: Connection_def)
  have h2: "chunks_ok (incoming ?c)" by (simp add: Connection_def)
  have h3: "distinct (clients ?s)" by (simp add: example_server_def)
  have p: "pending ?c = ''abc''" by (simp add: pending_def Connection_def)
  have s1: "\<not> closed (conns ?s 0)" "chunks_ok (incoming (conns ?s 0))"
    "NL \<notin> set (pending (conns ?s 0))"
    by (simp_all add: example_server_def Connection_def pending_def)
  have "fst (recv_line (conns ?s 0)) = Inl ConnectionError"
    using recv_line_spec [OF s1(1,2)] s1(3) by simp
  then have rf: "fst (read_frame (conns ?s 0)) = Inl ConnectionError"
    by (cases "recv_line (conns ?s 0)") (simp add: read_frame_def)
  note T = connection_closed [OF h1 h2 h3, of 5 0]
  have t1: "fst (recv_line ?c) = Inl ConnectionError"
    using T [THEN conjunct1] p by simp
  have t2: "fst (recv_exact 5 ?c) = Inl ConnectionError"
    using T [THEN conjunct2, THEN conjunct1] p by simp
  have t3: "fst (handle_client 0 ?s) = None"
    using T [THEN conjunct2, THEN conjunct2, THEN conjunct1] rf by simp
  note t4 = T [THEN conjunct2, THEN conjunct2, THEN conjunct2]
  show ?thesis using t1 t2 t3 t4 by blast
qed

section \<open>Claims C3 and C4: the broadcast\<close>

lemma encode_frame_split: "encode_frame f = frame_header f @ frame_payload f"
  by (cases f) simp_all

lemma send_frame_ok_iff: "(fst (send_frame h p c) = None) = accepts (h @ p) c"
  using send_frame_accepts(1) [of h p c] send_frame_rejects [of h p c] by blast

lemma dispatch_frame_relay:
  assumes "fst (dispatch a (Frame f) s) = Continue"
  shows "\<exists>s0. clients s0 = clients s \<and> conns s0 = conns s \<and>
           snd (dispatch a (Frame f) s) = broadcast a (frame_header f) (frame_payload f) s0"
proof (cases f)
  case (Message msg)
  have "clients (emit (MsgLog a msg) s) = clients s" "conns (emit (MsgLog a msg) s) = conns s"
    by (simp_all add: emit_def)
  then show ?thesis using Message by (auto simp: dispatch_def)
next
  case (FileTransfer filename n data)
  let ?path = "unique_save_path (files s) filename"
  obtain e s1 where w: "write_file ?path data s = (e, s1)" by (cases "write_file ?path data s")
  have e: "e = None" using assms FileTransfer w by (cases e) (simp_all add: dispatch_def Let_def)
  have "clients s1 = clients s" "conns s1 = conns s"
    using w write_file_clients [of ?path data s] write_file_conns [of ?path data s] by simp_all
  then have "clients (emit (FileLog a ?path n) s1) = clients s"
    "conns (emit (FileLog a ?path n) s1) = conns s"
    by (simp_all add: emit_def)
  then show ?thesis using FileTransfer w e by (auto simp: dispatch_def Let_def)
qed

lemma broadcast_delivery:
  assumes "distinct (clients s)" "d \<in> set (clients s)" "d \<noteq> a"
  shows "if accepts (h @ p) (conns s d)
         then d \<in> set (clients (broadcast a h p s)) \<and>
              outgoing (conns (broadcast a h p s) d) = outgoing (conns s d) @ h @ p
         else d \<notin> set (clients (broadcast a h p s)) \<and> closed (conns (broadcast a h p s) d)"
  using assms broadcast_target [OF assms, of h p] send_frame_accepts(2) [of h p "conns s d"]
  by (simp add: broadcast_clients close_def)

text \<open>
  C4. If the send to a target B fails during a broadcast, B is afterwards out of the
  registry and its socket closed; every other target whose own send succeeds has
  received header and payload; the originating connection is untouched and still
  registered, and its session step continues; and a later broadcast, from any origin,
  reaches every connection that is still registered and accepts the write. The registry
  holds each handle once.
\<close>

theorem broadcast_send_failure:
  assumes "distinct (clients s)" and "b \<in> set (clients s)" and "b \<noteq> a"
    and "fst (send_frame h p (conns s b)) \<noteq> None"
  shows "b \<notin> set (clients (broadcast a h p s)) \<and>
         closed (conns (broadcast a h p s) b) \<and>
         (\<forall>d \<in> set (clients s). d \<noteq> a \<and> fst (send_frame h p (conns s d)) = None \<longrightarrow>
            d \<in> set (clients (broadcast a h p s)) \<and>
            outgoing (conns (broadcast a h p s) d) = outgoing (conns s d) @ h @ p) \<and>
         conns (broadcast a h p s) a = conns s a \<and>
         (a \<in> set (clients s) \<longrightarrow> a \<in> set (clients (broadcast a h p s))) \<and>
         fst (dispatch a (Frame (Message msg)) s) = Continue \<and>
         (\<forall>a' h' p'. \<forall>d \<in> set (clients (broadcast a h p s)).
            d \<noteq> a' \<and> fst (send_frame h' p' (conns (broadcast a h p s) d)) = None \<longrightarrow>
            outgoing (conns (broadcast a' h' p' (broadcast a h p s)) d) =
              outgoing (conns (broadcast a h p s) d) @ h' @ p')"
proof -
  let ?s' = "broadcast a h p s"
  have nb: "\<not> accepts (h @ p) (conns s b)" using assms(4) by (simp add: send_frame_ok_iff)
  have d': "distinct (clients ?s')" using assms(1) by (rule broadcast_distinct)
  have 1: "b \<notin> set (clients ?s')" "closed (conns ?s' b)"
    using broadcast_delivery [OF assms(1,2,3), of h p] nb by simp_all
  have 2: "\<forall>d \<in> set (clients s). d \<noteq> a \<and> fst (send_frame h p (conns s d)) = None \<longrightarrow>
            d \<in> set (clients ?s') \<and> outgoing (conns ?s' d) = outgoing (conns s d) @ h @ p"
    using broadcast_delivery [OF assms(1), of _ a h p] by (auto simp: send_frame_ok_iff)
  have 3: "conns ?s' a = conns s a" by (simp add: broadcast_other)
  have 4: "a \<in> set (clients s) \<longrightarrow> a \<in> set (clients ?s')"
    using assms(1) by (simp add: broadcast_clients)
  have 5: "fst (dispatch a (Frame (Message msg)) s) = Continue" by (simp add: dispatch_def)
  have 6: "\<forall>a' h' p'. \<forall>d \<in> set (clients ?s').
            d \<noteq> a' \<and> fst (send_frame h' p' (conns ?s' d)) = None \<longrightarrow>
            outgoing (conns (broadcast a' h' p' ?s') d) = outgoing (conns ?s' d) @ h' @ p'"
    using broadcast_delivery [OF d'] by (auto simp: send_frame_ok_iff)
  show ?thesis using 1 2 3 4 5 6 by blast
qed

theorem broadcast_send_failure_witness:
  "1 \<notin> set (clients (broadcast 0 ''MSG|hi\<newline>'' [] (example_server []))) \<and>
   closed (conns (broadcast 0 ''MSG|hi\<newline>'' [] (example_server [])) 1) \<and>
   outgoing (conns (broadcast 0 ''MSG|hi\<newline>'' [] (example_server [])) 2) = ''MSG|hi\<newline>''"
proof -
  let ?s = "example_server []"
  have h1: "distinct (clients ?s)" and h2: "1 \<in> set (clients ?s)" and h3: "(1::nat) \<noteq> 0"
    by (simp_all add: example_server_def)
  have h4: "fst (send_frame ''MSG|hi\<newline>'' [] (conns ?s 1)) \<noteq> None"
    by (simp add: example_server_def Connection_def send_frame_def sendall_def)
  have ok2: "2 \<in> set (clients ?s)" "(2::nat) \<noteq> 0 \<and> fst (send_frame ''MSG|hi\<newline>'' [] (conns ?s 2)) = None"
    "outgoing (conns ?s 2) = []"
    by (simp_all add: example_server_def Connection_def send_frame_def sendall_def)
  note T = broadcast_send_failure [OF h1 h2 h3 h4, of "''hi''"]
  have t3: "outgoing (conns (broadcast 0 ''MSG|hi\<newline>'' [] ?s) 2) = ''MSG|hi\<newline>''"
    using T [THEN conjunct2, THEN conjunct2, THEN conjunct1, THEN bspec, OF ok2(1)] ok2(2,3)
    by simp
  show ?thesis using T [THEN conjunct1] T [THEN conjunct2, THEN conjunct1] t3 by blast
qed

text \<open>
  C3 (amended). When the session of A decodes a frame that A sent in the canonical
  encoding (\<open>MSG|<text>\n\<close>, or \<open>FILE|<name>|<decimal length>\n\<close> and the payload, text and name
  well-formed UTF-8 without delimiter) and goes on (for a file: the save did not raise),
  every registered connection other than A that is open and whose peer takes the bytes
  has received exactly the bytes A produced, a registered connection that does not is
  removed and closed, and nothing is sent to A. The registry holds each handle once.
\<close>

theorem relay_verbatim:
  assumes "distinct (clients s)" and "\<not> closed (conns s a)"
    and "chunks_ok (incoming (conns s a))" and "valid_frame f"
    and "pending (conns s a) = encode_frame f @ rest"
    and "fst (handle_step a s) = Continue"
  shows "(\<forall>d \<in> set (clients s). d \<noteq> a \<longrightarrow>
           (if accepts (encode_frame f) (conns s d)
            then d \<in> set (clients (snd (handle_step a s))) \<and>
                 outgoing (conns (snd (handle_step a s)) d) = outgoing (conns s d) @ encode_frame f
            else d \<notin> set (clients (snd (handle_step a s))) \<and>
                 closed (conns (snd (handle_step a s)) d))) \<and>
         outgoing (conns (snd (handle_step a s)) a) = outgoing (conns s a)"
proof -
  note R = read_frame_roundtrip [OF assms(2,3,4,5)]
  define c' where "c' = snd (read_frame (conns s a))"
  define s1 where "s1 = s\<lparr>conns := (conns s)(a := c')\<rparr>"
  have rf: "read_frame (conns s a) = (Inr (Frame f), c')"
    using R by (cases "read_frame (conns s a)") (simp add: c'_def)
  have hs: "handle_step a s = dispatch a (Frame f) s1"
    unfolding s1_def by (rule handle_step_read [OF rf])
  then have "fst (dispatch a (Frame f) s1) = Continue" using assms(6) by simp
  then obtain s0 where s0: "clients s0 = clients s1" "conns s0 = conns s1"
    and out: "snd (dispatch a (Frame f) s1) = broadcast a (frame_header f) (frame_payload f) s0"
    using dispatch_frame_relay by blast
  have cl: "clients s0 = clients s" and d0: "distinct (clients s0)"
    using s0 assms(1) by (simp_all add: s1_def)
  have same: "d \<noteq> a \<Longrightarrow> conns s0 d = conns s d" for d using s0 by (simp add: s1_def)
  have "conns (snd (handle_step a s)) a = c'"
    unfolding hs out using s0 by (simp add: broadcast_other s1_def)
  then have sender: "outgoing (conns (snd (handle_step a s)) a) = outgoing (conns s a)"
    using R by (simp add: c'_def)
  have "if accepts (encode_frame f) (conns s d)
        then d \<in> set (clients (snd (handle_step a s))) \<and>
             outgoing (conns (snd (handle_step a s)) d) = outgoing (conns s d) @ encode_frame f
        else d \<notin> set (clients (snd (handle_step a s))) \<and> closed (conns (snd (handle_step a s)) d)"
    if "d \<in> set (clients s)" "d \<noteq> a" for d
  proof -
    have "d \<in> set (clients s0)" using that cl by simp
    from broadcast_delivery [OF d0 this that(2), of "frame_header f" "frame_payload f"]
    show ?thesis unfolding hs out
      by (simp add: same [OF that(2)] encode_frame_split)
  qed
  then show ?thesis using sender by blast
qed

theorem relay_verbatim_witness:
  "valid_frame (Message ''hi'') \<and>
   pending (conns (example_server [''MSG|'', ''hi\<newline>'']) 0) = encode_frame (Message ''hi'') @ [] \<and>
   fst (handle_step 0 (example_server [''MSG|'', ''hi\<newline>''])) = Continue \<and>
   outgoing (conns (snd (handle_step 0 (example_server [''MSG|'', ''hi\<newline>'']))) 2) = ''MSG|hi\<newline>'' \<and>
   closed (conns (snd (handle_step 0 (example_server [''MSG|'', ''hi\<newline>'']))) 1) \<and>
   outgoing (conns (snd (handle_step 0 (example_server [''MSG|'', ''hi\<newline>'']))) 0) = []"
proof -
  let ?s = "example_server [''MSG|'', ''hi\<newline>'']"
  have h1: "distinct (clients ?s)" and h2: "\<not> closed (conns ?s 0)"
    and h3: "chunks_ok (incoming (conns ?s 0))"
    by (simp_all add: example_server_def Connection_def)
  have h4: "valid_frame (Message ''hi'')" by (simp add: classify_def)
  have h5: "pending (conns ?s 0) = encode_frame (Message ''hi'') @ []"
    by (simp add: example_server_def Connection_def pending_def)
  have "fst (read_frame (conns ?s 0)) = Inr (Frame (Message ''hi''))"
    using read_frame_roundtrip [OF h2 h3 h4 h5] by simp
  then have h6: "fst (handle_step 0 ?s) = Continue"
    by (cases "read_frame (conns ?s 0)") (simp add: handle_step_def dispatch_def)
  note T = relay_verbatim [OF h1 h2 h3 h4 h5 h6]
  have in1: "1 \<in> set (clients ?s)" and in2: "2 \<in> set (clients ?s)"
    by (simp_all add: example_server_def)
  have t1: "closed (conns (snd (handle_step 0 ?s)) 1)"
    using T [THEN conjunct1, THEN bspec, OF in1]
    by (simp add: accepts_def example_server_def Connection_def)
  have t2: "outgoing (conns (snd (handle_step 0 ?s)) 2) = ''MSG|hi\<newline>''"
    using T [THEN conjunct1, THEN bspec, OF in2]
    by (simp add: accepts_def example_server_def Connection_def)
  have t3: "outgoing (conns (snd (handle_step 0 ?s)) 0) = []"
    using T [THEN conjunct2] by (simp add: example_server_def Connection_def)
  show ?thesis using h4 h5 h6 t1 t2 t3 by blast
qed

text \<open>
  C3 as stated fails. Client 0 sends the frame \<open>FILE|a|01\n\<close> with payload \<open>X\<close>: client 1,
  whose peer breaks the connection after three bytes, has received \<open>FIL\<close>, and client 2
  has received the header rebuilt from the parsed size, \<open>FILE|a|1\n\<close>, not the header
  client 0 produced. Client 0 sends \<open>MSG|\<close>, the byte \<open>0xFF\<close> and a newline: client 2 has
  received the message with U+FFFD in place of that byte.
\<close>

theorem relay_counterexample:
  "outgoing (conns (snd (handle_step 0 (example_server [''FILE|a|01\<newline>X'']))) 1) = ''FIL'' \<and>
   outgoing (conns (snd (handle_step 0 (example_server [''FILE|a|01\<newline>X'']))) 2) = ''FILE|a|1\<newline>X'' \<and>
   outgoing (conns (snd (handle_step 0 (example_server [[CHR ''M'', CHR ''S'', CHR ''G'', BAR, CHR 0xFF, NL]]))) 2) =
     [CHR ''M'', CHR ''S'', CHR ''G'', BAR, CHR 0xEF, CHR 0xBF, CHR 0xBD, NL]"
  by (simp add: eval_defs U_FFFD_def)

section \<open>Claims C2 and C5: headers and frames\<close>

lemma client_send_file_wire:
  "outgoing (snd (client_send_file filename data (Connection [] None))) =
     encode_frame (FileTransfer filename (int (length data)) data)"
  by (simp add: client_send_file_def sendall_def Connection_def)

text \<open>
  C2 (amended). For every file name that is well-formed UTF-8 and contains neither
  \<open>|\<close> nor a newline, and every payload: the bytes the client writes for the transfer,
  \<open>FILE|<filename>|<length>\n\<close> followed by the payload, delivered to the server in any
  non-empty chunks, decode to a FileTransfer frame with the same file name, the same
  length and the same payload, and the reader stands right behind the payload.
\<close>

theorem file_roundtrip:
  assumes "well_formed filename" and "NL \<notin> set filename" and "BAR \<notin> set filename"
    and "[] \<notin> set chunks"
    and "concat chunks = outgoing (snd (client_send_file filename payload (Connection [] None))) @ rest"
  shows "fst (read_frame (Connection chunks cap)) =
           Inr (Frame (FileTransfer filename (int (length payload)) payload)) \<and>
         pending (snd (read_frame (Connection chunks cap))) = rest"
proof -
  let ?f = "FileTransfer filename (int (length payload)) payload"
  have v: "valid_frame ?f" using assms(1,2,3) by simp
  have c: "\<not> closed (Connection chunks cap)" "chunks_ok (incoming (Connection chunks cap))"
    using assms(4) by (simp_all add: Connection_def chunks_ok_no_empty)
  have p: "pending (Connection chunks cap) = encode_frame ?f @ rest"
    using assms(5) unfolding client_send_file_wire by (simp add: pending_def Connection_def)
  show ?thesis using read_frame_roundtrip [OF c v p] by simp
qed

theorem file_roundtrip_witness:
  "well_formed ''photo.jpg'' \<and>
   fst (read_frame (Connection [''FILE|photo'', ''.jpg|4\<newline>AB'', ''CDMSG|x\<newline>''] None)) =
     Inr (Frame (FileTransfer ''photo.jpg'' 4 ''ABCD'')) \<and>
   pending (snd (read_frame (Connection [''FILE|photo'', ''.jpg|4\<newline>AB'', ''CDMSG|x\<newline>''] None))) =
     ''MSG|x\<newline>''"
proof -
  have h1: "well_formed ''photo.jpg''" by (simp add: classify_def)
  have h2: "NL \<notin> set ''photo.jpg''" and h3: "BAR \<notin> set ''photo.jpg''" by simp_all
  have h4: "[] \<notin> set [''FILE|photo'', ''.jpg|4\<newline>AB'', ''CDMSG|x\<newline>'']" by simp
  have h5: "concat [''FILE|photo'', ''.jpg|4\<newline>AB'', ''CDMSG|x\<newline>''] =
      outgoing (snd (client_send_file ''photo.jpg'' ''ABCD'' (Connection [] None))) @ ''MSG|x\<newline>''"
    by (simp add: client_send_file_def sendall_def Connection_def py_str_def str_nat.simps digit_char_def)
  from file_roundtrip [OF h1 h2 h3 h4 h5, of None] h1 show ?thesis by simp
qed

text \<open>
  C2 as stated fails for a file name with a \<open>|\<close> or a newline: the header of the file
  \<open>a|b\<close> splits into four fields, the header of the file \<open>a\nb\<close> ends after \<open>FILE|a\<close>; both
  are rejected as malformed and no FileTransfer frame is decoded.
\<close>

theorem file_roundtrip_counterexample:
  "outgoing (snd (client_send_file ''a|b'' ''xyz'' (Connection [] None))) = ''FILE|a|b|3\<newline>xyz'' \<and>
   fst (read_frame (Connection [''FILE|a|b|3\<newline>xyz''] None)) = Inr (BadFileHeader ''FILE|a|b|3'') \<and>
   outgoing (snd (client_send_file ''a\<newline>b'' ''xyz'' (Connection [] None))) = ''FILE|a\<newline>b|3\<newline>xyz'' \<and>
   fst (read_frame (Connection [''FILE|a\<newline>b|3\<newline>xyz''] None)) = Inr (BadFileHeader ''FILE|a'')"
  by (simp add: client_send_file_def eval_defs)

text \<open>
  C5 (defect of the code). \<open>int()\<close> accepts \<open>-1\<close>, so the header \<open>FILE|a.txt|-1\<close> is not
  rejected: \<open>recv_exact(-1)\<close> takes all but the last byte of the accumulator, here the
  following message \<open>MSG|hi\<close>, which is saved as the file and broadcast as its payload,
  and the reader is left in front of a lone newline.
\<close>

theorem negative_size_accepted:
  "fst (handle_step 0 (example_server [''FILE|a.txt|-1\<newline>MSG|hi\<newline>''])) = Continue \<and>
   files (snd (handle_step 0 (example_server [''FILE|a.txt|-1\<newline>MSG|hi\<newline>'']))) =
     [(''received/a.txt'', ''MSG|hi'')] \<and>
   log (snd (handle_step 0 (example_server [''FILE|a.txt|-1\<newline>MSG|hi\<newline>'']))) =
     [FileLog 0 ''received/a.txt'' (- 1), BroadcastError 1] \<and>
   outgoing (conns (snd (handle_step 0 (example_server [''FILE|a.txt|-1\<newline>MSG|hi\<newline>'']))) 2) =
     ''FILE|a.txt|-1\<newline>MSG|hi'' \<and>
   pending (conns (snd (handle_step 0 (example_server [''FILE|a.txt|-1\<newline>MSG|hi\<newline>'']))) 0) =
     ''\<newline>''"
  by (simp add: eval_defs pending_def)

section \<open>Claim C9: the registry\<close>

lemma registry_ok_subset:
  assumes "registry_ok s" "distinct (clients s')" "set (clients s') \<subseteq> set (clients s)"
    "next_id s' = next_id s"
  shows "registry_ok s'"
  using assms by (auto simp: registry_ok_def list_all_iff)

lemma dispatch_next_id: "next_id (snd (dispatch a d s)) = next_id s"
proof (cases d)
  case (Frame f)
  show ?thesis
  proof (cases f)
    case (Message msg)
    then show ?thesis using Frame by (simp add: dispatch_def broadcast_frame emit_def)
  next
    case (FileTransfer filename n data)
    then show ?thesis using Frame
      by (simp add: dispatch_def Let_def write_file_def broadcast_frame emit_def
          split: option.splits)
  qed
qed (simp_all add: dispatch_def emit_def)

lemma handle_step_next_id: "next_id (snd (handle_step a s)) = next_id s"
proof -
  obtain r c' where rf: "read_frame (conns s a) = (r, c')" by (cases "read_frame (conns s a)")
  show ?thesis using rf dispatch_next_id by (cases r) (simp_all add: handle_step_def)
qed

lemma handle_loop_next_id: "next_id (snd (handle_loop a s)) = next_id s"
proof (induction a s rule: handle_loop.induct)
  case (1 conn s)
  obtain fl s' where hs: "handle_step conn s = (fl, s')" by (cases "handle_step conn s")
  have n': "next_id s' = next_id s" using handle_step_next_id [of conn s] hs by simp
  show ?case
  proof (cases fl)
    case Continue
    have "handle_loop conn s = handle_loop conn s'" using hs Continue by (simp add: handle_loop_continue)
    moreover have "next_id (snd (handle_loop conn s')) = next_id s'"
      using "1.IH" [OF hs [unfolded Continue, symmetric] refl] .
    ultimately show ?thesis using n' by simp
  next
    case (Raise e)
    then show ?thesis using hs n' by (simp add: handle_loop_raise)
  qed
qed

lemma remove_client_ok: "registry_ok s \<Longrightarrow> registry_ok (remove_client c s)"
proof -
  assume ok: "registry_ok s"
  then have d: "distinct (clients s)" by (simp add: registry_ok_def)
  show ?thesis
    by (rule registry_ok_subset [OF ok])
       (auto simp: remove_client_clients [OF d] d, simp add: remove_client_def Let_def)
qed

lemma handle_client_ok: "registry_ok s \<Longrightarrow> registry_ok (snd (handle_client a s))"
proof -
  assume ok: "registry_ok s"
  then have d: "distinct (clients s)" by (simp add: registry_ok_def)
  obtain e s1 where hl: "handle_loop a s = (e, s1)" by (cases "handle_loop a s")
  have "registry_ok s1"
    using handle_loop_distinct [OF d, of a] handle_loop_next_id [of a s] hl
    by (intro registry_ok_subset [OF ok]) simp_all
  moreover from this have "registry_ok (emit (ClosedLog a) s1)"
    by (simp add: registry_ok_def emit_def)
  ultimately show ?thesis using hl by (simp add: handle_client_def remove_client_ok)
qed

lemma perform_ok: "registry_ok s \<Longrightarrow> registry_ok (perform x s)"
proof (cases x)
  case (Accept chunks cap)
  assume "registry_ok s"
  then show ?thesis using Accept by (auto simp: registry_ok_def register_def list_all_iff)
next
  case (Step c)
  assume ok: "registry_ok s"
  then have d: "distinct (clients s)" by (simp add: registry_ok_def)
  show ?thesis
    unfolding Step perform.simps
    using handle_step_distinct [OF d, of c] handle_step_next_id [of c s]
    by (intro registry_ok_subset [OF ok]) simp_all
next
  case (SessionEnd c)
  assume "registry_ok s"
  then show ?thesis using SessionEnd by (simp add: handle_client_ok)
next
  case (Relay c h p)
  assume ok: "registry_ok s"
  then have d: "distinct (clients s)" by (simp add: registry_ok_def)
  show ?thesis
    unfolding Relay perform.simps
    using broadcast_distinct [OF d] broadcast_subset [OF d] broadcast_frame
    by (intro registry_ok_subset [OF ok]) simp_all
next
  case (Remove c)
  assume "registry_ok s"
  then show ?thesis using Remove by (simp add: remove_client_ok)
qed

lemma run_actions_ok: "registry_ok s \<Longrightarrow> registry_ok (run_actions xs s)"
  by (induction xs arbitrary: s) (simp_all add: perform_ok)

lemma TCPServer_ok: "registry_ok (TCPServer fs free)"
  by (simp add: registry_ok_def TCPServer_def)

lemma remove_client_idem:
  "distinct (clients s) \<Longrightarrow> remove_client c (remove_client c s) = remove_client c s"
  by (simp add: remove_client_def Let_def close_def)

text \<open>
  C9. In every state the server reaches from its start (by accepting connections, by
  steps and ends of sessions, by broadcasts and removals, in any order) each handle is
  in the registry at most once. Unregistering is idempotent there: a second call changes
  nothing, and a handle that is not registered leaves the registry as it is; afterwards
  the handle is not registered and its socket is closed. Closing never fails, and
  closing a closed socket changes nothing.
\<close>

theorem registry_unique:
  "distinct (clients (run_actions xs (TCPServer fs free))) \<and>
   remove_client c (remove_client c (run_actions xs (TCPServer fs free))) =
     remove_client c (run_actions xs (TCPServer fs free)) \<and>
   (c \<notin> set (clients (run_actions xs (TCPServer fs free))) \<longrightarrow>
      clients (remove_client c (run_actions xs (TCPServer fs free))) =
        clients (run_actions xs (TCPServer fs free))) \<and>
   c \<notin> set (clients (remove_client c (run_actions xs (TCPServer fs free)))) \<and>
   closed (conns (remove_client c (run_actions xs (TCPServer fs free))) c) \<and>
   close (close k) = close k"
proof -
  let ?s = "run_actions xs (TCPServer fs free)"
  have d: "distinct (clients ?s)"
    using run_actions_ok [OF TCPServer_ok, of xs fs free] by (simp add: registry_ok_def)
  have a: "c \<notin> set (clients ?s) \<longrightarrow> clients (remove_client c ?s) = clients ?s"
    by (simp add: remove_client_def Let_def)
  have k: "close (close k) = close k" by (simp add: close_def)
  show ?thesis
    using d remove_client_idem [OF d, of c] a remove_client_absent [OF d, of c]
      remove_client_closed [of c ?s] k
    by blast
qed

theorem registry_unique_witness:
  "clients (run_actions [Accept [''MSG|hi\<newline>''] None, Accept [] None, Remove 1] (TCPServer [] 0)) = [0] \<and>
   clients (remove_client 1
     (run_actions [Accept [''MSG|hi\<newline>''] None, Accept [] None, Remove 1] (TCPServer [] 0))) = [0] \<and>
   closed (conns (remove_client 1
     (run_actions [Accept [''MSG|hi\<newline>''] None, Accept [] None, Remove 1] (TCPServer [] 0))) 1)"
proof -
  let ?s = "run_actions [Accept [''MSG|hi\<newline>''] None, Accept [] None, Remove 1] (TCPServer [] 0)"
  note T = registry_unique [of "[Accept [''MSG|hi\<newline>''] None, Accept [] None, Remove 1]" "[]" 0 1]
  have c: "clients ?s = [0]"
    by (simp add: TCPServer_def register_def remove_client_def)
  then have "1 \<notin> set (clients ?s)" by simp
  then have t1: "clients (remove_client 1 ?s) = [0]"
    using T [THEN conjunct2, THEN conjunct2, THEN conjunct1] c by simp
  have t2: "closed (conns (remove_client 1 ?s) 1)"
    using T [THEN conjunct2, THEN conjunct2, THEN conjunct2, THEN conjunct2, THEN conjunct1] .
  show ?thesis using c t1 t2 by blast
qed

section \<open>Claim C10: the file is saved before it is relayed\<close>

lemma sock_recv_length: "sock_recv k c = (Inr chunk, c') \<Longrightarrow> length chunk \<le> k"
  by (auto simp: sock_recv_def split: if_splits list.splits)

lemma recv_exact_loop_length:
  "fst (recv_exact_loop n acc c) = Inr data \<Longrightarrow> length data = length acc + nat n"
proof (induction n acc c rule: recv_exact_loop.induct)
  case (1 n acc c)
  show ?case
  proof (cases "n > 0")
    case False
    then have "recv_exact_loop n acc c = (Inr acc, c)" by (subst recv_exact_loop.simps) simp
    then show ?thesis using "1.prems" False by simp
  next
    case True
    obtain r c' where sr: "sock_recv (min 4096 (nat n)) c = (r, c')"
      by (cases "sock_recv (min 4096 (nat n)) c")
    show ?thesis
    proof (cases r)
      case (Inl e)
      then have "recv_exact_loop n acc c = (Inl e, c')"
        using True sr by (subst recv_exact_loop.simps) simp
      then show ?thesis using "1.prems" by simp
    next
      case (Inr chunk)
      have len: "length chunk \<le> min 4096 (nat n)" using sr Inr by (intro sock_recv_length) simp
      show ?thesis
      proof (cases "chunk = []")
        case empty: True
        then have "recv_exact_loop n acc c = (Inl ConnectionError, c')"
          using True sr Inr by (subst recv_exact_loop.simps) simp
        then show ?thesis using "1.prems" by simp
      next
        case False
        have eq: "recv_exact_loop n acc c = recv_exact_loop (n - int (length chunk)) (acc @ chunk) c'"
          using True sr Inr False by (subst recv_exact_loop.simps) simp
        have "length data = length (acc @ chunk) + nat (n - int (length chunk))"
          by (rule "1.IH" [OF True _ _ False, of "Inr chunk" c'])
             (use "1.prems" eq in \<open>simp_all add: sr Inr\<close>)
        moreover have "nat (n - int (length chunk)) = nat n - length chunk"
          using True by (simp add: nat_diff_distrib')
        ultimately show ?thesis using len by simp
      qed
    qed
  qed
qed

lemma recv_exact_length:
  assumes "fst (recv_exact n c) = Inr data" "0 \<le> n"
  shows "length data = nat n"
proof (cases "buffer c = []")
  case True
  then show ?thesis using assms recv_exact_loop_length [of n "[]" c data]
    by (simp add: recv_exact_def)
next
  case False
  define k where "k = min n (int (length (buffer c)))"
  have k: "0 \<le> k" "k \<le> n" "nat k \<le> length (buffer c)" using assms(2) by (simp_all add: k_def)
  have "fst (recv_exact_loop (n - k) (slice_to k (buffer c)) (c\<lparr>buffer := del_to k (buffer c)\<rparr>)) = Inr data"
    using assms(1) False by (simp add: recv_exact_def Let_def k_def)
  from recv_exact_loop_length [OF this] show ?thesis
    using k by (simp add: slice_to_def min_absorb2)
qed

lemma read_frame_file_data:
  assumes "fst (read_frame c) = Inr (Frame (FileTransfer filename n data))"
  shows "\<exists>c1. fst (recv_exact n c1) = Inr data"
proof -
  obtain r c1 where rl: "recv_line c = (r, c1)" by (cases "recv_line c")
  show ?thesis
  proof (cases r)
    case (Inl e)
    then show ?thesis using assms rl by (simp add: read_frame_def)
  next
    case (Inr line)
    define header where "header = rstrip_nl line"
    show ?thesis
    proof (cases "startswith header ''MSG|''")
      case True
      then show ?thesis using assms rl Inr
        by (simp add: read_frame_def header_def split: list.splits)
    next
      case notmsg: False
      show ?thesis
      proof (cases "startswith header ''FILE|'' \<and> length (split_on BAR header) = 3")
        case False
        then consider "\<not> startswith header ''FILE|''"
          | "startswith header ''FILE|''" "length (split_on BAR header) \<noteq> 3" by blast
        then show ?thesis
        proof cases
          case 1
          then show ?thesis using assms rl Inr notmsg
            by (simp add: read_frame_def header_def)
        next
          case 2
          then show ?thesis using assms rl Inr notmsg
            by (simp add: read_frame_def header_def Let_def)
        qed
      next
        case True
        show ?thesis
        proof (cases "py_int (split_on BAR header ! 2)")
          case (Inl e)
          then show ?thesis using assms rl Inr notmsg True
            by (simp add: read_frame_def header_def Let_def)
        next
          case m: (Inr m)
          obtain r2 c2 where re: "recv_exact m c1 = (r2, c2)" by (cases "recv_exact m c1")
          have "r2 = Inr data \<and> m = n"
            using assms rl Inr notmsg True m re
            by (cases r2) (simp_all add: read_frame_def header_def Let_def)
          then show ?thesis using re by (metis fst_conv)
        qed
      qed
    qed
  qed
qed

text \<open>
  C10. For a FileTransfer frame decoded in a session step (its payload, for a size
  \<open>n \<ge> 0\<close>, has exactly \<open>n\<close> bytes): if the write succeeds, the broadcast starts from the
  state in which the resolved path holds the whole payload; if \<open>open\<close> or \<open>write\<close> raises,
  the step raises that error without any send, the session ends, no other connection
  has received anything, and the connection is unregistered and closed.
\<close>

theorem save_before_relay:
  assumes "distinct (clients s)"
    and "fst (read_frame (conns s a)) = Inr (Frame (FileTransfer filename n data))"
  shows "(0 \<le> n \<longrightarrow> length data = nat n) \<and>
     (\<forall>s2. write_file (unique_save_path (files s) filename) data
              (s\<lparr>conns := (conns s)(a := snd (read_frame (conns s a)))\<rparr>) = (None, s2) \<longrightarrow>
        map_of (files s2) (unique_save_path (files s) filename) = Some data \<and>
        handle_step a s =
          (Continue,
           broadcast a (''FILE|'' @ filename @ ''|'' @ py_str n @ [NL]) data
             (emit (FileLog a (unique_save_path (files s) filename) n) s2))) \<and>
     (\<forall>e s2. write_file (unique_save_path (files s) filename) data
                (s\<lparr>conns := (conns s)(a := snd (read_frame (conns s a)))\<rparr>) = (Some e, s2) \<longrightarrow>
        handle_step a s = (Raise e, s2) \<and>
        fst (handle_client a s) = (if e = ValueError then Some e else None) \<and>
        (\<forall>d. d \<noteq> a \<longrightarrow> outgoing (conns (snd (handle_client a s)) d) = outgoing (conns s d)) \<and>
        a \<notin> set (clients (snd (handle_client a s))) \<and>
        closed (conns (snd (handle_client a s)) a))"
proof (intro conjI allI impI)
  let ?c' = "snd (read_frame (conns s a))"
  let ?s1 = "s\<lparr>conns := (conns s)(a := ?c')\<rparr>"
  let ?path = "unique_save_path (files s) filename"
  have rf: "read_frame (conns s a) = (Inr (Frame (FileTransfer filename n data)), ?c')"
    using assms(2) by (cases "read_frame (conns s a)") simp
  have hs: "handle_step a s = dispatch a (Frame (FileTransfer filename n data)) ?s1"
    by (rule handle_step_read [OF rf])
  {
    assume "0 \<le> n"
    then show "length data = nat n"
      using read_frame_file_data [OF assms(2)] recv_exact_length by blast
  }
  {
    fix s2 assume w: "write_file ?path data ?s1 = (None, s2)"
    show "map_of (files s2) ?path = Some data"
      using w by (auto simp: write_file_def open_error_def split: if_splits option.splits)
    show "handle_step a s =
          (Continue, broadcast a (''FILE|'' @ filename @ ''|'' @ py_str n @ [NL]) data
             (emit (FileLog a ?path n) s2))"
      unfolding hs using w by (simp add: dispatch_def Let_def)
  }
  {
    fix e s2 assume w: "write_file ?path data ?s1 = (Some e, s2)"
    show step: "handle_step a s = (Raise e, s2)"
      unfolding hs using w by (simp add: dispatch_def Let_def)
    then have hl: "handle_loop a s = (e, s2)" by (rule handle_loop_raise)
    have e: "e = ValueError \<or> e = OSError"
      using w by (auto simp: write_file_def open_error_def split: if_splits option.splits)
    show "fst (handle_client a s) = (if e = ValueError then Some e else None)"
      using hl e by (auto simp: handle_client_def)
    have c2: "conns s2 = conns ?s1"
      using w write_file_conns [of ?path data ?s1] by simp
    show "outgoing (conns (snd (handle_client a s)) d) = outgoing (conns s d)" if "d \<noteq> a" for d
      using hl c2 that
      by (simp add: handle_client_def remove_client_def Let_def emit_def)
    show "a \<notin> set (clients (snd (handle_client a s)))" "closed (conns (snd (handle_client a s)) a)"
      using handle_client_cleanup [OF assms(1)] by simp_all
  }
qed

theorem save_before_relay_witness:
  "fst (read_frame (conns ((example_server [''FILE|a|2\<newline>XY''])\<lparr>free_space := 1\<rparr>) 0)) =
     Inr (Frame (FileTransfer ''a'' 2 ''XY'')) \<and>
   handle_step 0 ((example_server [''FILE|a|2\<newline>XY''])\<lparr>free_space := 1\<rparr>) =
     (Raise OSError,
      (example_server [''FILE|a|2\<newline>XY''])
        \<lparr>conns := (conns (example_server [''FILE|a|2\<newline>XY'']))
           (0 := snd (read_frame (conns (example_server [''FILE|a|2\<newline>XY'']) 0))),
         files := [(''received/a'', ''X'')], free_space := 0\<rparr>) \<and>
   fst (handle_client 0 ((example_server [''FILE|a|2\<newline>XY''])\<lparr>free_space := 1\<rparr>)) = None \<and>
   outgoing (conns (snd (handle_client 0 ((example_server [''FILE|a|2\<newline>XY''])\<lparr>free_space := 1\<rparr>))) 2) = [] \<and>
   0 \<notin> set (clients (snd (handle_client 0 ((example_server [''FILE|a|2\<newline>XY''])\<lparr>free_space := 1\<rparr>))))"
proof -
  let ?s = "(example_server [''FILE|a|2\<newline>XY''])\<lparr>free_space := 1\<rparr>"
  have h1: "distinct (clients ?s)" by (simp add: example_server_def)
  have h2: "fst (read_frame (conns ?s 0)) = Inr (Frame (FileTransfer ''a'' 2 ''XY''))"
    by (simp add: eval_defs)
  have w: "write_file (unique_save_path (files ?s) ''a'') ''XY''
             (?s\<lparr>conns := (conns ?s)(0 := snd (read_frame (conns ?s 0)))\<rparr>) =
           (Some OSError,
            (example_server [''FILE|a|2\<newline>XY''])
              \<lparr>conns := (conns (example_server [''FILE|a|2\<newline>XY'']))
                 (0 := snd (read_frame (conns (example_server [''FILE|a|2\<newline>XY'']) 0))),
               files := [(''received/a'', ''X'')], free_space := 0\<rparr>)"
    by (simp add: write_file_def open_error_def NAME_MAX_def unique_save_path_def basename_def
        splitext_def path_exists_def RECV_DIR_def example_server_def)
  note T = save_before_relay [OF h1 h2, THEN conjunct2, THEN conjunct2, THEN spec, THEN spec,
      THEN mp, OF w]
  have o2: "outgoing (conns ?s 2) = []" by (simp add: example_server_def Connection_def)
  have t3: "outgoing (conns (snd (handle_client 0 ?s)) 2) = []"
    using T [THEN conjunct2, THEN conjunct2, THEN conjunct1, THEN spec, of 2] o2 by simp
  show ?thesis
    using h2 T [THEN conjunct1] T [THEN conjunct2, THEN conjunct1] t3
      T [THEN conjunct2, THEN conjunct2, THEN conjunct2, THEN conjunct1]
    by simp
qed

section \<open>Claims C6 and C8: malformed headers and files of length zero\<close>

subsection \<open>What a step prints, and when the file cannot be made\<close>

lemma send_to_log:
  "log (send_to c h p s) = log s @ (if accepts (h @ p) (conns s c) then [] else [BroadcastError c])"
  by (cases "accepts (h @ p) (conns s c)")
     (simp_all add: send_to_accepts send_to_rejects remove_client_def Let_def)

lemma send_each_log:
  "distinct ts \<Longrightarrow>
   log (send_each ts h p s) =
     log s @ map BroadcastError (filter (\<lambda>d. \<not> accepts (h @ p) (conns s d)) ts)"
proof (induction ts arbitrary: s)
  case Nil
  then show ?case by simp
next
  case (Cons c ts)
  let ?s1 = "send_to c h p s"
  have dts: "distinct ts" "c \<notin> set ts" using Cons.prems by simp_all
  have same: "conns ?s1 d = conns s d" if "d \<in> set ts" for d
  proof -
    have "c \<noteq> d" using that dts by auto
    then show ?thesis by (rule send_to_other)
  qed
  have "filter (\<lambda>d. \<not> accepts (h @ p) (conns ?s1 d)) ts =
        filter (\<lambda>d. \<not> accepts (h @ p) (conns s d)) ts"
    using same by (intro filter_cong refl) simp
  then show ?case using Cons.IH [OF dts(1), of ?s1] by (simp add: send_to_log)
qed

lemma broadcast_log:
  "distinct (clients s) \<Longrightarrow>
   log (broadcast a h p s) =
     log s @ map BroadcastError
       (filter (\<lambda>d. d \<noteq> a \<and> \<not> accepts (h @ p) (conns s d)) (clients s))"
  unfolding broadcast_def by (subst send_each_log) (simp_all add: conj_commute)

lemma basename_join: "CHR ''/'' \<notin> set name \<Longrightarrow> basename (d @ CHR ''/'' # name) = name"
proof -
  assume "CHR ''/'' \<notin> set name"
  then have "takeWhile (\<lambda>c. c \<noteq> CHR ''/'') (rev name @ CHR ''/'' # rev d) = rev name"
    by (subst takeWhile_append2) auto
  then show ?thesis by (simp add: basename_def)
qed

lemma emit_reader:
  "log (emit e (s\<lparr>conns := (conns s)(a := c1)\<rparr>)) = log s @ [e] \<and>
   clients (emit e (s\<lparr>conns := (conns s)(a := c1)\<rparr>)) = clients s \<and>
   files (emit e (s\<lparr>conns := (conns s)(a := c1)\<rparr>)) = files s \<and>
   free_space (emit e (s\<lparr>conns := (conns s)(a := c1)\<rparr>)) = free_space s \<and>
   conns (emit e (s\<lparr>conns := (conns s)(a := c1)\<rparr>)) = (conns s)(a := c1)"
  by (simp add: emit_def)

lemma dispatch_file_refused:
  "open_error (unique_save_path (files s) filename) = Some e \<Longrightarrow>
   dispatch a (Frame (FileTransfer filename n data)) s = (Raise e, s)"
  by (simp add: dispatch_def Let_def write_file_refused)

lemma dispatch_file_saved:
  "open_error (unique_save_path (files s) filename) = None \<Longrightarrow> length data \<le> free_space s \<Longrightarrow>
   dispatch a (Frame (FileTransfer filename n data)) s =
     (Continue,
      broadcast a (''FILE|'' @ filename @ ''|'' @ py_str n @ [NL]) data
        (emit (FileLog a (unique_save_path (files s) filename) n)
           (s\<lparr>files := (unique_save_path (files s) filename, data) # files s,
              free_space := free_space s - length data\<rparr>)))"
  by (simp add: dispatch_def Let_def write_file_ok)

lemma py_str_0: "py_str 0 = ''0''"
  by (simp add: py_str_def str_nat.simps digit_char_def)

lemma zero_length_frame:
  assumes "\<not> closed c" and "chunks_ok (incoming c)"
    and "NL \<notin> set name" and "BAR \<notin> set name"
    and "pending c = ''FILE|'' @ name @ ''|0'' @ NL # rest"
  shows "read_frame c = (Inr (Frame (FileTransfer (decode_replace name) 0 [])), snd (recv_line c))"
    and "pending (snd (recv_line c)) = rest"
    and "outgoing (snd (recv_line c)) = outgoing c"
proof -
  let ?dn = "decode_replace name"
  have dn: "BAR \<notin> set ?dn" using assms(4) by (simp add: ascii_in_decode_replace ascii_iff)
  define line where "line = ''FILE|'' @ name @ BAR # ''0''"
  have nl: "NL \<notin> set line" using assms(3) by (simp add: line_def)
  have pend': "pending c = line @ NL # rest" using assms(5) by (simp add: line_def)
  have dec: "decode_replace line = ''FILE|'' @ ?dn @ BAR # ''0''"
    unfolding line_def decode_FILE by (simp add: decode_step_def classify_def)
  have notmsg: "\<not> startswith (decode_replace line) ''MSG|''"
    and isfile: "startswith (decode_replace line) ''FILE|''"
    unfolding dec by (simp_all add: startswith_def)
  have sp: "split_on BAR (decode_replace line) = [''FILE'', ?dn, ''0'']"
    unfolding dec using dn by (intro split_FILE) simp_all
  have pi: "py_int ''0'' = Inr 0"
    by (simp add: py_int_def long_from_string_def py_isspace_def is_digit_def digit_val_def)
  note H = recv_line_header [OF assms(1,2) pend' nl]
  show "pending (snd (recv_line c)) = rest" by (rule H(2))
  show "outgoing (snd (recv_line c)) = outgoing c" by (rule H(5))
  show "read_frame c = (Inr (Frame (FileTransfer ?dn 0 [])), snd (recv_line c))"
    using read_frame_file [OF assms(1,2) pend' nl notmsg isfile sp pi]
    by (simp add: recv_exact_zero)
qed

lemma no_size_frame:
  assumes "\<not> closed c" and "chunks_ok (incoming c)"
    and "NL \<notin> set name" and "BAR \<notin> set name"
  shows "pending c = ''FILE|'' @ name @ ''|'' @ NL # rest \<Longrightarrow>
           read_frame c = (Inr (BadSize []), snd (recv_line c)) \<and> pending (snd (recv_line c)) = rest \<and>
           outgoing (snd (recv_line c)) = outgoing c"
    and "pending c = ''FILE|'' @ name @ NL # rest \<Longrightarrow>
           read_frame c = (Inr (BadFileHeader (''FILE|'' @ decode_replace name)), snd (recv_line c)) \<and>
           pending (snd (recv_line c)) = rest \<and> outgoing (snd (recv_line c)) = outgoing c"
proof -
  let ?dn = "decode_replace name"
  have dn: "BAR \<notin> set ?dn" using assms(4) by (simp add: ascii_in_decode_replace ascii_iff)
  {
    assume pend: "pending c = ''FILE|'' @ name @ ''|'' @ NL # rest"
    define line where "line = ''FILE|'' @ name @ BAR # []"
    have nl: "NL \<notin> set line" using assms(3) by (simp add: line_def)
    have pend': "pending c = line @ NL # rest" using pend by (simp add: line_def)
    have dec: "decode_replace line = ''FILE|'' @ ?dn @ BAR # []"
      unfolding line_def decode_FILE by simp
    have notmsg: "\<not> startswith (decode_replace line) ''MSG|''"
      and isfile: "startswith (decode_replace line) ''FILE|''"
      unfolding dec by (simp_all add: startswith_def)
    have sp: "split_on BAR (decode_replace line) = [''FILE'', ?dn, []]"
      unfolding dec using dn by (intro split_FILE) simp_all
    have pi: "py_int [] = Inl ValueError" by (simp add: py_int_def long_from_string_def)
    note H = recv_line_header [OF assms(1,2) pend' nl]
    show "read_frame c = (Inr (BadSize []), snd (recv_line c)) \<and> pending (snd (recv_line c)) = rest \<and>
           outgoing (snd (recv_line c)) = outgoing c"
      using read_frame_bad_size [OF assms(1,2) pend' nl notmsg isfile sp pi] H(2,5) by simp
  }
  {
    assume pend: "pending c = ''FILE|'' @ name @ NL # rest"
    define line where "line = ''FILE|'' @ name"
    have nl: "NL \<notin> set line" using assms(3) by (simp add: line_def)
    have pend': "pending c = line @ NL # rest" using pend by (simp add: line_def)
    have dec: "decode_replace line = ''FILE|'' @ ?dn"
      unfolding line_def by (simp add: decode_step_def classify_def)
    have notmsg: "\<not> startswith (decode_replace line) ''MSG|''"
      and isfile: "startswith (decode_replace line) ''FILE|''"
      unfolding dec by (simp_all add: startswith_def)
    have "split_on BAR (''FILE'' @ BAR # ?dn) = ''FILE'' # split_on BAR ?dn"
      by (rule split_on_append) simp
    then have sp: "length (split_on BAR (decode_replace line)) \<noteq> 3"
      unfolding dec using dn by (simp add: split_on_no_sep)
    note H = recv_line_header [OF assms(1,2) pend' nl]
    show "read_frame c = (Inr (BadFileHeader (''FILE|'' @ ?dn)), snd (recv_line c)) \<and>
           pending (snd (recv_line c)) = rest \<and> outgoing (snd (recv_line c)) = outgoing c"
      using read_frame_bad_file_header [OF assms(1,2) pend' nl notmsg isfile sp] H(2,5)
      by (simp add: dec)
  }
qed

lemma warn_step:
  assumes "read_frame (conns s a) = (Inr d, c1)"
    and "d = BadFileHeader h \<and> e = WarnFileHeader h \<or> d = BadSize h \<and> e = WarnSize h \<or>
         d = UnknownHeader h \<and> e = WarnUnknown h"
  shows "handle_step a s = (Continue, emit e (s\<lparr>conns := (conns s)(a := c1)\<rparr>))"
  unfolding handle_step_read [OF assms(1)] using assms(2) by (auto simp: dispatch_def)

lemma zero_length_saved:
  assumes "distinct (clients s)" and "\<not> closed (conns s a)" and "chunks_ok (incoming (conns s a))"
    and "NL \<notin> set name" and "BAR \<notin> set name"
    and "pending (conns s a) = ''FILE|'' @ name @ ''|0'' @ NL # rest"
    and "open_error (unique_save_path (files s) (decode_replace name)) = None"
  shows "fst (handle_step a s) = Continue"
    and "files (snd (handle_step a s)) =
           (unique_save_path (files s) (decode_replace name), []) # files s"
    and "log (snd (handle_step a s)) =
           log s @ FileLog a (unique_save_path (files s) (decode_replace name)) 0 #
             map BroadcastError
               (filter (\<lambda>d. d \<noteq> a \<and>
                    \<not> accepts (''FILE|'' @ decode_replace name @ ''|0'' @ [NL]) (conns s d))
                  (clients s))"
    and "\<forall>d \<in> set (clients s). d \<noteq> a \<longrightarrow>
           (if accepts (''FILE|'' @ decode_replace name @ ''|0'' @ [NL]) (conns s d)
            then d \<in> set (clients (snd (handle_step a s))) \<and>
                 outgoing (conns (snd (handle_step a s)) d) =
                   outgoing (conns s d) @ ''FILE|'' @ decode_replace name @ ''|0'' @ [NL]
            else d \<notin> set (clients (snd (handle_step a s))) \<and>
                 closed (conns (snd (handle_step a s)) d))"
    and "outgoing (conns (snd (handle_step a s)) a) = outgoing (conns s a)"
    and "pending (conns (snd (handle_step a s)) a) = rest"
proof -
  let ?dn = "decode_replace name"
  let ?path = "unique_save_path (files s) ?dn"
  let ?hdr = "''FILE|'' @ ?dn @ ''|0'' @ [NL]"
  let ?c1 = "snd (recv_line (conns s a))"
  let ?s1 = "s\<lparr>conns := (conns s)(a := ?c1)\<rparr>"
  let ?s2 = "emit (FileLog a ?path 0) (?s1\<lparr>files := (?path, []) # files ?s1,
                free_space := free_space ?s1 - length ([] :: bytes)\<rparr>)"
  note Z = zero_length_frame [OF assms(2,3,4,5,6)]
  have op: "open_error (unique_save_path (files ?s1) ?dn) = None" using assms(7) by simp
  have hs: "handle_step a s = (Continue, broadcast a ?hdr [] ?s2)"
    unfolding handle_step_read [OF Z(1)]
    using dispatch_file_saved [OF op, of "[]" a 0] by (simp add: py_str_0)
  have d2: "distinct (clients ?s2)" and cl: "clients ?s2 = clients s"
    using assms(1) by (simp_all add: emit_def)
  have same: "d \<noteq> a \<Longrightarrow> conns ?s2 d = conns s d" for d by (simp add: emit_def)
  show "fst (handle_step a s) = Continue" by (simp add: hs)
  show "files (snd (handle_step a s)) = (?path, []) # files s"
    by (simp add: hs broadcast_frame) (simp add: emit_def)
  have "filter (\<lambda>d. d \<noteq> a \<and> \<not> accepts (?hdr @ []) (conns ?s2 d)) (clients ?s2) =
        filter (\<lambda>d. d \<noteq> a \<and> \<not> accepts ?hdr (conns s d)) (clients s)"
    unfolding cl using same by (intro filter_cong refl) auto
  then show "log (snd (handle_step a s)) =
           log s @ FileLog a ?path 0 #
             map BroadcastError (filter (\<lambda>d. d \<noteq> a \<and> \<not> accepts ?hdr (conns s d)) (clients s))"
    unfolding hs snd_conv broadcast_log [OF d2] by (simp add: emit_def)
  show "\<forall>d \<in> set (clients s). d \<noteq> a \<longrightarrow>
           (if accepts ?hdr (conns s d)
            then d \<in> set (clients (snd (handle_step a s))) \<and>
                 outgoing (conns (snd (handle_step a s)) d) = outgoing (conns s d) @ ?hdr
            else d \<notin> set (clients (snd (handle_step a s))) \<and>
                 closed (conns (snd (handle_step a s)) d))"
  proof (intro ballI impI)
    fix d assume d: "d \<in> set (clients s)" "d \<noteq> a"
    define h where "h = ?hdr"
    define t where "t = ?s2"
    have m: "d \<in> set (clients t)" using d(1) cl by (simp add: t_def)
    have dt: "distinct (clients t)" using d2 by (simp add: t_def)
    have ct: "conns t d = conns s d" using same [OF d(2)] by (simp add: t_def)
    have st: "snd (handle_step a s) = broadcast a h [] t" by (simp add: hs h_def t_def)
    from broadcast_delivery [OF dt m d(2), of h "[]"]
    have "if accepts h (conns s d)
          then d \<in> set (clients (snd (handle_step a s))) \<and>
               outgoing (conns (snd (handle_step a s)) d) = outgoing (conns s d) @ h
          else d \<notin> set (clients (snd (handle_step a s))) \<and>
               closed (conns (snd (handle_step a s)) d)"
      unfolding st ct by simp
    then show "if accepts ?hdr (conns s d)
          then d \<in> set (clients (snd (handle_step a s))) \<and>
               outgoing (conns (snd (handle_step a s)) d) = outgoing (conns s d) @ ?hdr
          else d \<notin> set (clients (snd (handle_step a s))) \<and>
               closed (conns (snd (handle_step a s)) d)"
      unfolding h_def .
  qed
  have "conns (snd (handle_step a s)) a = ?c1"
    unfolding hs snd_conv by (simp add: broadcast_other emit_def)
  then show "outgoing (conns (snd (handle_step a s)) a) = outgoing (conns s a)"
    and "pending (conns (snd (handle_step a s)) a) = rest"
    using Z(2,3) by simp_all
qed

lemma zero_length_refused:
  assumes "\<not> closed (conns s a)" and "chunks_ok (incoming (conns s a))"
    and "NL \<notin> set name" and "BAR \<notin> set name"
    and "pending (conns s a) = ''FILE|'' @ name @ ''|0'' @ NL # rest"
    and "open_error (unique_save_path (files s) (decode_replace name)) = Some e"
  shows "handle_step a s = (Raise e, s\<lparr>conns := (conns s)(a := snd (recv_line (conns s a)))\<rparr>)"
proof -
  note Z = zero_length_frame [OF assms(1,2,3,4,5)]
  let ?s1 = "s\<lparr>conns := (conns s)(a := snd (recv_line (conns s a)))\<rparr>"
  have op: "open_error (unique_save_path (files ?s1) (decode_replace name)) = Some e"
    using assms(6) by simp
  show ?thesis
    unfolding handle_step_read [OF Z(1)] by (rule dispatch_file_refused [OF op])
qed

lemma warn_only:
  assumes "read_frame (conns s a) = (Inr d, c1)"
    and "d = BadFileHeader h \<and> e = WarnFileHeader h \<or> d = BadSize h \<and> e = WarnSize h \<or>
         d = UnknownHeader h \<and> e = WarnUnknown h"
  shows "fst (handle_step a s) = Continue \<and>
         log (snd (handle_step a s)) = log s @ [e] \<and>
         clients (snd (handle_step a s)) = clients s \<and>
         files (snd (handle_step a s)) = files s \<and>
         free_space (snd (handle_step a s)) = free_space s \<and>
         conns (snd (handle_step a s)) = (conns s)(a := c1)"
  unfolding warn_step [OF assms] using emit_reader [of e s a c1] by simp

lemma long_name_refused:
  assumes "CHR ''/'' \<notin> set name" and "NAME_MAX < length name"
  shows "open_error (unique_save_path fs name) = Some OSError \<or>
         open_error (unique_save_path fs name) = Some ValueError"
proof -
  have tw: "takeWhile (\<lambda>c. c \<noteq> CHR ''/'') (rev name) = rev name"
    using assms(1) by (subst takeWhile_eq_all_conv) auto
  have b: "basename name = name" unfolding basename_def tw by simp
  have bj: "basename (RECV_DIR @ CHR ''/'' # name) = name"
    by (rule basename_join [OF assms(1)])
  have oe: "open_error (RECV_DIR @ ''/'' @ name) \<noteq> None"
    using assms(2) by (simp add: open_error_def bj)
  then have "\<not> path_exists fs (RECV_DIR @ ''/'' @ name)" by (simp add: path_exists_def)
  then have "unique_save_path fs name = RECV_DIR @ ''/'' @ name"
    by (simp add: unique_save_path_def Let_def b)
  then show ?thesis using assms(2) by (simp add: open_error_def bj)
qed

subsection \<open>Claim C6: a malformed header is skipped\<close>

text \<open>
  C6 (amended). A header line with an unknown tag, or a \<open>FILE|\<close> line that does not split
  into exactly three fields, produces no frame: the step appends one warning to the log,
  sends nothing, writes no file, leaves the registry and every other connection as they
  were, and the loop continues with the reader of that connection behind the line and
  its socket open. When the bytes behind the line begin with the canonical encoding of a
  valid frame, the next read decodes that frame and stops behind it.
\<close>

theorem malformed_header_skipped:
  assumes "\<not> closed (conns s a)" and "chunks_ok (incoming (conns s a))"
    and "NL \<notin> set line" and "pending (conns s a) = line @ NL # rest"
    and "\<not> startswith (decode_replace line) ''MSG|''"
    and "\<not> startswith (decode_replace line) ''FILE|'' \<or>
         length (split_on BAR (decode_replace line)) \<noteq> 3"
  shows "fst (read_frame (conns s a)) =
           Inr (if startswith (decode_replace line) ''FILE|''
                then BadFileHeader (decode_replace line)
                else UnknownHeader (decode_replace line)) \<and>
         fst (handle_step a s) = Continue \<and>
         log (snd (handle_step a s)) =
           log s @ [if startswith (decode_replace line) ''FILE|''
                    then WarnFileHeader (decode_replace line)
                    else WarnUnknown (decode_replace line)] \<and>
         clients (snd (handle_step a s)) = clients s \<and>
         files (snd (handle_step a s)) = files s \<and>
         free_space (snd (handle_step a s)) = free_space s \<and>
         (\<forall>d. d \<noteq> a \<longrightarrow> conns (snd (handle_step a s)) d = conns s d) \<and>
         outgoing (conns (snd (handle_step a s)) a) = outgoing (conns s a) \<and>
         \<not> closed (conns (snd (handle_step a s)) a) \<and>
         pending (conns (snd (handle_step a s)) a) = rest \<and>
         (\<forall>f rest'. valid_frame f \<and> rest = encode_frame f @ rest' \<longrightarrow>
            fst (read_frame (conns (snd (handle_step a s)) a)) = Inr (Frame f) \<and>
            pending (snd (read_frame (conns (snd (handle_step a s)) a))) = rest')"
proof -
  let ?h = "decode_replace line"
  let ?c1 = "snd (recv_line (conns s a))"
  let ?d = "if startswith ?h ''FILE|'' then BadFileHeader ?h else UnknownHeader ?h"
  let ?e = "if startswith ?h ''FILE|'' then WarnFileHeader ?h else WarnUnknown ?h"
  note H = recv_line_header [OF assms(1,2,4,3)]
  have rf: "read_frame (conns s a) = (Inr ?d, ?c1)"
  proof (cases "startswith ?h ''FILE|''")
    case True
    then have len: "length (split_on BAR ?h) \<noteq> 3" using assms(6) by simp
    show ?thesis
      using read_frame_bad_file_header [OF assms(1,2,4,3,5) True len] True by simp
  next
    case False
    show ?thesis using read_frame_unknown [OF assms(1,2,4,3,5) False] False by simp
  qed
  have de: "?d = BadFileHeader ?h \<and> ?e = WarnFileHeader ?h \<or>
            ?d = BadSize ?h \<and> ?e = WarnSize ?h \<or>
            ?d = UnknownHeader ?h \<and> ?e = WarnUnknown ?h"
    by simp
  note W = warn_only [OF rf de]
  have c1: "conns (snd (handle_step a s)) a = ?c1" using W by simp
  have others: "\<forall>d. d \<noteq> a \<longrightarrow> conns (snd (handle_step a s)) d = conns s d" using W by simp
  have next_frame: "\<forall>f rest'. valid_frame f \<and> rest = encode_frame f @ rest' \<longrightarrow>
            fst (read_frame (conns (snd (handle_step a s)) a)) = Inr (Frame f) \<and>
            pending (snd (read_frame (conns (snd (handle_step a s)) a))) = rest'"
  proof (intro allI impI)
    fix f rest' assume v: "valid_frame f \<and> rest = encode_frame f @ rest'"
    then have p: "pending ?c1 = encode_frame f @ rest'" using H(2) by simp
    show "fst (read_frame (conns (snd (handle_step a s)) a)) = Inr (Frame f) \<and>
            pending (snd (read_frame (conns (snd (handle_step a s)) a))) = rest'"
      unfolding c1 using read_frame_roundtrip [OF H(3,4) conjunct1 [OF v], of rest'] p by simp
  qed
  have r1: "fst (read_frame (conns s a)) = Inr ?d" by (simp add: rf)
  have r8: "outgoing (conns (snd (handle_step a s)) a) = outgoing (conns s a)"
    unfolding c1 by (rule H(5))
  have r9: "\<not> closed (conns (snd (handle_step a s)) a)" unfolding c1 by (rule H(3))
  have r10: "pending (conns (snd (handle_step a s)) a) = rest" unfolding c1 by (rule H(2))
  show ?thesis
    using r1 W [THEN conjunct1] W [THEN conjunct2, THEN conjunct1]
      W [THEN conjunct2, THEN conjunct2, THEN conjunct1]
      W [THEN conjunct2, THEN conjunct2, THEN conjunct2, THEN conjunct1]
      W [THEN conjunct2, THEN conjunct2, THEN conjunct2, THEN conjunct2, THEN conjunct1]
      others r8 r9 r10 next_frame
    by blast
qed

theorem malformed_header_skipped_witness:
  "fst (read_frame (conns (example_server [''FILE|onlyonefield\<newline>MSG|'', ''hi\<newline>'']) 0)) =
     Inr (BadFileHeader ''FILE|onlyonefield'') \<and>
   fst (handle_step 0 (example_server [''FILE|onlyonefield\<newline>MSG|'', ''hi\<newline>''])) = Continue \<and>
   log (snd (handle_step 0 (example_server [''FILE|onlyonefield\<newline>MSG|'', ''hi\<newline>'']))) =
     [WarnFileHeader ''FILE|onlyonefield''] \<and>
   clients (snd (handle_step 0 (example_server [''FILE|onlyonefield\<newline>MSG|'', ''hi\<newline>'']))) =
     [0, 1, 2] \<and>
   files (snd (handle_step 0 (example_server [''FILE|onlyonefield\<newline>MSG|'', ''hi\<newline>'']))) = [] \<and>
   outgoing (conns (snd (handle_step 0
       (example_server [''FILE|onlyonefield\<newline>MSG|'', ''hi\<newline>'']))) 2) = [] \<and>
   pending (conns (snd (handle_step 0
       (example_server [''FILE|onlyonefield\<newline>MSG|'', ''hi\<newline>'']))) 0) = ''MSG|hi\<newline>'' \<and>
   fst (read_frame (conns (snd (handle_step 0
       (example_server [''FILE|onlyonefield\<newline>MSG|'', ''hi\<newline>'']))) 0)) =
     Inr (Frame (Message ''hi''))"
proof -
  let ?s = "example_server [''FILE|onlyonefield\<newline>MSG|'', ''hi\<newline>'']"
  have h1: "\<not> closed (conns ?s 0)" and h2: "chunks_ok (incoming (conns ?s 0))"
    by (simp_all add: example_server_def Connection_def)
  have h3: "NL \<notin> set ''FILE|onlyonefield''" by simp
  have h4: "pending (conns ?s 0) = ''FILE|onlyonefield'' @ NL # ''MSG|hi\<newline>''"
    by (simp add: example_server_def Connection_def pending_def)
  have d: "decode_replace ''FILE|onlyonefield'' = ''FILE|onlyonefield''"
    by (simp add: decode_step_def classify_def)
  have h5: "\<not> startswith (decode_replace ''FILE|onlyonefield'') ''MSG|''"
    unfolding d by (simp add: startswith_def)
  have h6: "\<not> startswith (decode_replace ''FILE|onlyonefield'') ''FILE|'' \<or>
      length (split_on BAR (decode_replace ''FILE|onlyonefield'')) \<noteq> 3"
    unfolding d by simp
  have sw: "startswith (decode_replace ''FILE|onlyonefield'') ''FILE|''"
    unfolding d by (simp add: startswith_def)
  have v: "valid_frame (Message ''hi'') \<and> ''MSG|hi\<newline>'' = encode_frame (Message ''hi'') @ []"
    by (simp add: classify_def)
  have st: "log ?s = []" "clients ?s = [0, 1, 2]" "files ?s = []" "outgoing (conns ?s 2) = []"
    by (simp_all add: example_server_def Connection_def)
  have c2: "(2::nat) \<noteq> 0" by simp
  note T = malformed_header_skipped [OF h1 h2 h3 h4 h5 h6]
  have t1: "fst (read_frame (conns ?s 0)) = Inr (BadFileHeader ''FILE|onlyonefield'')"
    using T [THEN conjunct1] sw unfolding d by simp
  have t2: "fst (handle_step 0 ?s) = Continue" by (rule T [THEN conjunct2, THEN conjunct1])
  have t3: "log (snd (handle_step 0 ?s)) = [WarnFileHeader ''FILE|onlyonefield'']"
    using T [THEN conjunct2, THEN conjunct2, THEN conjunct1] sw st(1) unfolding d by simp
  have t4: "clients (snd (handle_step 0 ?s)) = [0, 1, 2]"
    using T [THEN conjunct2, THEN conjunct2, THEN conjunct2, THEN conjunct1] st(2) by simp
  have t5: "files (snd (handle_step 0 ?s)) = []"
    using T [THEN conjunct2, THEN conjunct2, THEN conjunct2, THEN conjunct2, THEN conjunct1] st(3)
    by simp
  have t6: "outgoing (conns (snd (handle_step 0 ?s)) 2) = []"
    using T [THEN conjunct2, THEN conjunct2, THEN conjunct2, THEN conjunct2, THEN conjunct2,
        THEN conjunct2, THEN conjunct1, THEN spec, THEN mp, OF c2] st(4) by simp
  have t7: "pending (conns (snd (handle_step 0 ?s)) 0) = ''MSG|hi\<newline>''"
    by (rule T [THEN conjunct2, THEN conjunct2, THEN conjunct2, THEN conjunct2, THEN conjunct2,
        THEN conjunct2, THEN conjunct2, THEN conjunct2, THEN conjunct2, THEN conjunct1])
  have t8: "fst (read_frame (conns (snd (handle_step 0 ?s)) 0)) = Inr (Frame (Message ''hi''))"
    using T [THEN conjunct2, THEN conjunct2, THEN conjunct2, THEN conjunct2, THEN conjunct2,
        THEN conjunct2, THEN conjunct2, THEN conjunct2, THEN conjunct2, THEN conjunct2,
        THEN spec, THEN spec, THEN mp, OF v]
    by simp
  show ?thesis using t1 t2 t3 t4 t5 t6 t7 t8 by blast
qed

text \<open>
  C6 as stated fails when the malformed line is the header of a file: the client sends
  the file \<open>a|b\<close> as \<open>FILE|a|b|3\<close> and its three bytes, the server skips the line only, reads
  the payload as the beginning of the next header and never decodes the message that
  follows; none of it reaches the other clients.
\<close>

theorem malformed_header_counterexample:
  "outgoing (snd (client_send_file ''a|b'' ''xyz'' (Connection [] None))) @
     encode_frame (Message ''hi'') = ''FILE|a|b|3\<newline>xyzMSG|hi\<newline>'' \<and>
   valid_frame (Message ''hi'') \<and>
   fst (handle_step 0 (example_server [''FILE|a|b|3\<newline>xyzMSG|hi\<newline>''])) = Continue \<and>
   log (snd (handle_step 0 (example_server [''FILE|a|b|3\<newline>xyzMSG|hi\<newline>'']))) =
     [WarnFileHeader ''FILE|a|b|3''] \<and>
   fst (read_frame (conns (snd (handle_step 0
       (example_server [''FILE|a|b|3\<newline>xyzMSG|hi\<newline>'']))) 0)) =
     Inr (UnknownHeader ''xyzMSG|hi'') \<and>
   log (snd (handle_client 0 (example_server [''FILE|a|b|3\<newline>xyzMSG|hi\<newline>'']))) =
     [WarnFileHeader ''FILE|a|b|3'', WarnUnknown ''xyzMSG|hi'', ClosedLog 0] \<and>
   outgoing (conns (snd (handle_client 0
       (example_server [''FILE|a|b|3\<newline>xyzMSG|hi\<newline>'']))) 2) = []"
proof -
  let ?s = "example_server [''FILE|a|b|3\<newline>xyzMSG|hi\<newline>'']"
  have a: "outgoing (snd (client_send_file ''a|b'' ''xyz'' (Connection [] None))) @
     encode_frame (Message ''hi'') = ''FILE|a|b|3\<newline>xyzMSG|hi\<newline>'' \<and>
     valid_frame (Message ''hi'')"
    by (simp add: client_send_file_def sendall_def Connection_def py_str_def str_nat.simps
        digit_char_def classify_def)
  have b: "fst (handle_step 0 ?s) = Continue \<and>
      log (snd (handle_step 0 ?s)) = [WarnFileHeader ''FILE|a|b|3''] \<and>
      fst (read_frame (conns (snd (handle_step 0 ?s)) 0)) = Inr (UnknownHeader ''xyzMSG|hi'')"
    by (simp add: eval_defs)
  have c: "log (snd (handle_client 0 ?s)) =
      [WarnFileHeader ''FILE|a|b|3'', WarnUnknown ''xyzMSG|hi'', ClosedLog 0] \<and>
      outgoing (conns (snd (handle_client 0 ?s)) 2) = []"
    by (simp add: handle_client_def handle_loop.simps eval_defs)
  show ?thesis using a b c by blast
qed

subsection \<open>Claim C8: a file of length zero\<close>

text \<open>
  C8 (amended). \<open>read_exact(0)\<close> returns the empty byte sequence and leaves the connection
  as it was, accumulator and transport alike. A header \<open>FILE|<name>|0\<close> is decoded as a file
  transfer with an empty payload, and nothing is read behind the header line. When the
  resolved path can be opened, the empty file is written there and the save is logged,
  every other registered connection that accepts the header has it appended to what it
  received, and one that does not is removed and closed. When \<open>open\<close> raises, the step
  raises that error, and nothing is saved, logged or sent. A header without a size,
  \<open>FILE|<name>|\<close> or \<open>FILE|<name>\<close>, is no frame: one warning is logged, nothing is saved or
  sent, and the loop continues behind the line.
\<close>

theorem zero_length_file:
  assumes "distinct (clients s)" and "\<not> closed (conns s a)"
    and "chunks_ok (incoming (conns s a))"
    and "NL \<notin> set name" and "BAR \<notin> set name"
  shows "recv_exact 0 c = (Inr [], c) \<and>
    (pending (conns s a) = ''FILE|'' @ name @ ''|0'' @ NL # rest \<longrightarrow>
       read_frame (conns s a) =
         (Inr (Frame (FileTransfer (decode_replace name) 0 [])), snd (recv_line (conns s a))) \<and>
       pending (snd (recv_line (conns s a))) = rest \<and>
       (case open_error (unique_save_path (files s) (decode_replace name)) of
          Some e \<Rightarrow>
            handle_step a s =
              (Raise e, s\<lparr>conns := (conns s)(a := snd (recv_line (conns s a)))\<rparr>)
        | None \<Rightarrow>
            fst (handle_step a s) = Continue \<and>
            files (snd (handle_step a s)) =
              (unique_save_path (files s) (decode_replace name), []) # files s \<and>
            log (snd (handle_step a s)) =
              log s @ FileLog a (unique_save_path (files s) (decode_replace name)) 0 #
                map BroadcastError
                  (filter (\<lambda>d. d \<noteq> a \<and>
                       \<not> accepts (''FILE|'' @ decode_replace name @ ''|0'' @ [NL]) (conns s d))
                     (clients s)) \<and>
            (\<forall>d \<in> set (clients s). d \<noteq> a \<longrightarrow>
               (if accepts (''FILE|'' @ decode_replace name @ ''|0'' @ [NL]) (conns s d)
                then d \<in> set (clients (snd (handle_step a s))) \<and>
                     outgoing (conns (snd (handle_step a s)) d) =
                       outgoing (conns s d) @ ''FILE|'' @ decode_replace name @ ''|0'' @ [NL]
                else d \<notin> set (clients (snd (handle_step a s))) \<and>
                     closed (conns (snd (handle_step a s)) d))) \<and>
            outgoing (conns (snd (handle_step a s)) a) = outgoing (conns s a) \<and>
            pending (conns (snd (handle_step a s)) a) = rest)) \<and>
    (pending (conns s a) = ''FILE|'' @ name @ ''|'' @ NL # rest \<longrightarrow>
       fst (handle_step a s) = Continue \<and>
       log (snd (handle_step a s)) = log s @ [WarnSize []] \<and>
       clients (snd (handle_step a s)) = clients s \<and>
       files (snd (handle_step a s)) = files s \<and>
       free_space (snd (handle_step a s)) = free_space s \<and>
       conns (snd (handle_step a s)) = (conns s)(a := snd (recv_line (conns s a))) \<and>
       pending (snd (recv_line (conns s a))) = rest \<and>
       outgoing (snd (recv_line (conns s a))) = outgoing (conns s a)) \<and>
    (pending (conns s a) = ''FILE|'' @ name @ NL # rest \<longrightarrow>
       fst (handle_step a s) = Continue \<and>
       log (snd (handle_step a s)) = log s @ [WarnFileHeader (''FILE|'' @ decode_replace name)] \<and>
       clients (snd (handle_step a s)) = clients s \<and>
       files (snd (handle_step a s)) = files s \<and>
       free_space (snd (handle_step a s)) = free_space s \<and>
       conns (snd (handle_step a s)) = (conns s)(a := snd (recv_line (conns s a))) \<and>
       pending (snd (recv_line (conns s a))) = rest \<and>
       outgoing (snd (recv_line (conns s a))) = outgoing (conns s a))"
proof (intro conjI impI)
  show "recv_exact 0 c = (Inr [], c)" by (rule recv_exact_zero)
next
  assume pend: "pending (conns s a) = ''FILE|'' @ name @ ''|0'' @ NL # rest"
  note Z = zero_length_frame [OF assms(2,3,4,5) pend]
  show "read_frame (conns s a) =
         (Inr (Frame (FileTransfer (decode_replace name) 0 [])), snd (recv_line (conns s a)))"
    by (rule Z(1))
  show "pending (snd (recv_line (conns s a))) = rest" by (rule Z(2))
  show "case open_error (unique_save_path (files s) (decode_replace name)) of
          Some e \<Rightarrow>
            handle_step a s =
              (Raise e, s\<lparr>conns := (conns s)(a := snd (recv_line (conns s a)))\<rparr>)
        | None \<Rightarrow>
            fst (handle_step a s) = Continue \<and>
            files (snd (handle_step a s)) =
              (unique_save_path (files s) (decode_replace name), []) # files s \<and>
            log (snd (handle_step a s)) =
              log s @ FileLog a (unique_save_path (files s) (decode_replace name)) 0 #
                map BroadcastError
                  (filter (\<lambda>d. d \<noteq> a \<and>
                       \<not> accepts (''FILE|'' @ decode_replace name @ ''|0'' @ [NL]) (conns s d))
                     (clients s)) \<and>
            (\<forall>d \<in> set (clients s). d \<noteq> a \<longrightarrow>
               (if accepts (''FILE|'' @ decode_replace name @ ''|0'' @ [NL]) (conns s d)
                then d \<in> set (clients (snd (handle_step a s))) \<and>
                     outgoing (conns (snd (handle_step a s)) d) =
                       outgoing (conns s d) @ ''FILE|'' @ decode_replace name @ ''|0'' @ [NL]
                else d \<notin> set (clients (snd (handle_step a s))) \<and>
                     closed (conns (snd (handle_step a s)) d))) \<and>
            outgoing (conns (snd (handle_step a s)) a) = outgoing (conns s a) \<and>
            pending (conns (snd (handle_step a s)) a) = rest"
  proof (cases "open_error (unique_save_path (files s) (decode_replace name))")
    case None
    note S = zero_length_saved [OF assms pend None]
    show ?thesis unfolding None option.case
      by (intro conjI) (rule S(1), rule S(2), rule S(3), rule S(4), rule S(5), rule S(6))
  next
    case (Some e)
    show ?thesis unfolding Some option.case
      by (rule zero_length_refused [OF assms(2,3,4,5) pend Some])
  qed
next
  assume pend: "pending (conns s a) = ''FILE|'' @ name @ ''|'' @ NL # rest"
  note N = no_size_frame(1) [OF assms(2,3,4,5) pend]
  have rf: "read_frame (conns s a) = (Inr (BadSize []), snd (recv_line (conns s a)))"
    using N by simp
  note W = warn_only [OF rf, of "[]" "WarnSize []"]
  show "fst (handle_step a s) = Continue"
    and "log (snd (handle_step a s)) = log s @ [WarnSize []]"
    and "clients (snd (handle_step a s)) = clients s"
    and "files (snd (handle_step a s)) = files s"
    and "free_space (snd (handle_step a s)) = free_space s"
    and "conns (snd (handle_step a s)) = (conns s)(a := snd (recv_line (conns s a)))"
    and "pending (snd (recv_line (conns s a))) = rest"
    and "outgoing (snd (recv_line (conns s a))) = outgoing (conns s a)"
    using W N by simp_all
next
  assume pend: "pending (conns s a) = ''FILE|'' @ name @ NL # rest"
  note N = no_size_frame(2) [OF assms(2,3,4,5) pend]
  have rf: "read_frame (conns s a) =
      (Inr (BadFileHeader (''FILE|'' @ decode_replace name)), snd (recv_line (conns s a)))"
    using N by simp
  note W = warn_only [OF rf, of "''FILE|'' @ decode_replace name"
      "WarnFileHeader (''FILE|'' @ decode_replace name)"]
  show "fst (handle_step a s) = Continue"
    and "log (snd (handle_step a s)) = log s @ [WarnFileHeader (''FILE|'' @ decode_replace name)]"
    and "clients (snd (handle_step a s)) = clients s"
    and "files (snd (handle_step a s)) = files s"
    and "free_space (snd (handle_step a s)) = free_space s"
    and "conns (snd (handle_step a s)) = (conns s)(a := snd (recv_line (conns s a)))"
    and "pending (snd (recv_line (conns s a))) = rest"
    and "outgoing (snd (recv_line (conns s a))) = outgoing (conns s a)"
    using W N by simp_all
qed

theorem zero_length_file_witness:
  "recv_exact 0 (Connection [''abc''] None) = (Inr [], Connection [''abc''] None) \<and>
   fst (handle_step 0 (example_server [''FILE|a.txt|0'', ''\<newline>MSG|x\<newline>''])) = Continue \<and>
   files (snd (handle_step 0 (example_server [''FILE|a.txt|0'', ''\<newline>MSG|x\<newline>'']))) =
     [(''received/a.txt'', [])] \<and>
   log (snd (handle_step 0 (example_server [''FILE|a.txt|0'', ''\<newline>MSG|x\<newline>'']))) =
     [FileLog 0 ''received/a.txt'' 0, BroadcastError 1] \<and>
   outgoing (conns (snd (handle_step 0 (example_server [''FILE|a.txt|0'', ''\<newline>MSG|x\<newline>'']))) 2) =
     ''FILE|a.txt|0\<newline>'' \<and>
   closed (conns (snd (handle_step 0 (example_server [''FILE|a.txt|0'', ''\<newline>MSG|x\<newline>'']))) 1) \<and>
   pending (conns (snd (handle_step 0 (example_server [''FILE|a.txt|0'', ''\<newline>MSG|x\<newline>'']))) 0) =
     ''MSG|x\<newline>'' \<and>
   fst (handle_step 0 (example_server [''FILE|a.txt|\<newline>MSG|x\<newline>''])) = Continue \<and>
   log (snd (handle_step 0 (example_server [''FILE|a.txt|\<newline>MSG|x\<newline>'']))) = [WarnSize []] \<and>
   files (snd (handle_step 0 (example_server [''FILE|a.txt|\<newline>MSG|x\<newline>'']))) = [] \<and>
   outgoing (conns (snd (handle_step 0 (example_server [''FILE|a.txt|\<newline>MSG|x\<newline>'']))) 2) = [] \<and>
   log (snd (handle_step 0 (example_server [''FILE|a.txt\<newline>MSG|x\<newline>'']))) =
     [WarnFileHeader ''FILE|a.txt''] \<and>
   files (snd (handle_step 0 (example_server [''FILE|a.txt\<newline>MSG|x\<newline>'']))) = [] \<and>
   outgoing (conns (snd (handle_step 0 (example_server [''FILE|a.txt\<newline>MSG|x\<newline>'']))) 2) = []"
proof -
  let ?s = "example_server [''FILE|a.txt|0'', ''\<newline>MSG|x\<newline>'']"
  let ?t = "example_server [''FILE|a.txt|\<newline>MSG|x\<newline>'']"
  let ?u = "example_server [''FILE|a.txt\<newline>MSG|x\<newline>'']"
  let ?hdr = "''FILE|'' @ decode_replace ''a.txt'' @ ''|0'' @ [NL]"
  have n1: "NL \<notin> set ''a.txt''" and n2: "BAR \<notin> set ''a.txt''" by simp_all
  have dn: "decode_replace ''a.txt'' = ''a.txt''" by (simp add: decode_step_def classify_def)
  have s1: "distinct (clients ?s)" and s2: "\<not> closed (conns ?s 0)"
    and s3: "chunks_ok (incoming (conns ?s 0))"
    by (simp_all add: example_server_def Connection_def)
  have sp: "pending (conns ?s 0) = ''FILE|'' @ ''a.txt'' @ ''|0'' @ NL # ''MSG|x\<newline>''"
    by (simp add: example_server_def Connection_def pending_def)
  have t1: "distinct (clients ?t)" and t2: "\<not> closed (conns ?t 0)"
    and t3: "chunks_ok (incoming (conns ?t 0))"
    by (simp_all add: example_server_def Connection_def)
  have tp: "pending (conns ?t 0) = ''FILE|'' @ ''a.txt'' @ ''|'' @ NL # ''MSG|x\<newline>''"
    by (simp add: example_server_def Connection_def pending_def)
  have u1: "distinct (clients ?u)" and u2: "\<not> closed (conns ?u 0)"
    and u3: "chunks_ok (incoming (conns ?u 0))"
    by (simp_all add: example_server_def Connection_def)
  have up: "pending (conns ?u 0) = ''FILE|'' @ ''a.txt'' @ NL # ''MSG|x\<newline>''"
    by (simp add: example_server_def Connection_def pending_def)
  have path: "unique_save_path (files ?s) (decode_replace ''a.txt'') = ''received/a.txt''"
    unfolding dn
    by (simp add: example_server_def unique_save_path_def basename_def splitext_def
        path_exists_def RECV_DIR_def open_error_def NAME_MAX_def Let_def)
  have op: "open_error (unique_save_path (files ?s) (decode_replace ''a.txt'')) = None"
    unfolding path by (simp add: open_error_def NAME_MAX_def basename_def)
  have a1: "\<not> accepts ?hdr (conns ?s 1)" and a2: "accepts ?hdr (conns ?s 2)"
    unfolding dn by (simp_all add: accepts_def example_server_def Connection_def)
  have m1: "(1::nat) \<in> set (clients ?s)" and m2: "(2::nat) \<in> set (clients ?s)"
    by (simp_all add: example_server_def)
  have o2: "outgoing (conns ?s 2) = []" "outgoing (conns ?t 2) = []" "outgoing (conns ?u 2) = []"
    by (simp_all add: example_server_def Connection_def)
  have fl: "files ?s = []" "files ?t = []" "files ?u = []" "log ?s = []" "log ?t = []" "log ?u = []"
    by (simp_all add: example_server_def)
  note T = zero_length_file [OF s1 s2 s3 n1 n2, where rest = "''MSG|x\<newline>''"
      and c = "Connection [''abc''] None"]
  note T0 = T [THEN conjunct2, THEN conjunct1, THEN mp, OF sp, THEN conjunct2, THEN conjunct2]
  have K: "fst (handle_step 0 ?s) = Continue \<and>
      files (snd (handle_step 0 ?s)) =
        (unique_save_path (files ?s) (decode_replace ''a.txt''), []) # files ?s \<and>
      log (snd (handle_step 0 ?s)) =
        log ?s @ FileLog 0 (unique_save_path (files ?s) (decode_replace ''a.txt'')) 0 #
          map BroadcastError
            (filter (\<lambda>d. d \<noteq> 0 \<and> \<not> accepts ?hdr (conns ?s d)) (clients ?s)) \<and>
      (\<forall>d \<in> set (clients ?s). d \<noteq> 0 \<longrightarrow>
         (if accepts ?hdr (conns ?s d)
          then d \<in> set (clients (snd (handle_step 0 ?s))) \<and>
               outgoing (conns (snd (handle_step 0 ?s)) d) = outgoing (conns ?s d) @ ?hdr
          else d \<notin> set (clients (snd (handle_step 0 ?s))) \<and>
               closed (conns (snd (handle_step 0 ?s)) d))) \<and>
      outgoing (conns (snd (handle_step 0 ?s)) 0) = outgoing (conns ?s 0) \<and>
      pending (conns (snd (handle_step 0 ?s)) 0) = ''MSG|x\<newline>''"
    using T0 unfolding op option.case .
  have r0: "recv_exact 0 (Connection [''abc''] None) = (Inr [], Connection [''abc''] None)"
    by (rule T [THEN conjunct1])
  have r1: "fst (handle_step 0 ?s) = Continue" by (rule K [THEN conjunct1])
  have path': "unique_save_path [] ''a.txt'' = ''received/a.txt''"
    using path unfolding dn fl .
  have r2: "files (snd (handle_step 0 ?s)) = [(''received/a.txt'', [])]"
    using K [THEN conjunct2, THEN conjunct1] unfolding dn fl path' by simp
  have fi: "filter (\<lambda>d. d \<noteq> 0 \<and> \<not> accepts ?hdr (conns ?s d)) (clients ?s) = [1]"
    using a1 a2 by (simp add: example_server_def)
  have r3: "log (snd (handle_step 0 ?s)) = [FileLog 0 ''received/a.txt'' 0, BroadcastError 1]"
    using K [THEN conjunct2, THEN conjunct2, THEN conjunct1] unfolding fi unfolding dn fl path'
    by simp
  note D = K [THEN conjunct2, THEN conjunct2, THEN conjunct2, THEN conjunct1]
  have r4: "outgoing (conns (snd (handle_step 0 ?s)) 2) = ''FILE|a.txt|0\<newline>''"
    using D [THEN bspec, OF m2, THEN mp] a2 o2(1) dn by simp
  have r5: "closed (conns (snd (handle_step 0 ?s)) 1)"
    using D [THEN bspec, OF m1, THEN mp] a1 by simp
  have r6: "pending (conns (snd (handle_step 0 ?s)) 0) = ''MSG|x\<newline>''"
    by (rule K [THEN conjunct2, THEN conjunct2, THEN conjunct2, THEN conjunct2, THEN conjunct2])
  note U = zero_length_file [OF t1 t2 t3 n1 n2, where rest = "''MSG|x\<newline>''",
      THEN conjunct2, THEN conjunct2, THEN conjunct1, THEN mp, OF tp]
  have c2: "(2::nat) \<noteq> 0" by simp
  have r7: "fst (handle_step 0 ?t) = Continue" by (rule U [THEN conjunct1])
  have r8: "log (snd (handle_step 0 ?t)) = [WarnSize []]"
    using U [THEN conjunct2, THEN conjunct1] unfolding fl by simp
  have r9: "files (snd (handle_step 0 ?t)) = []"
    using U [THEN conjunct2, THEN conjunct2, THEN conjunct2, THEN conjunct1] unfolding fl .
  have r10: "outgoing (conns (snd (handle_step 0 ?t)) 2) = []"
    using U [THEN conjunct2, THEN conjunct2, THEN conjunct2, THEN conjunct2, THEN conjunct2,
        THEN conjunct1] o2(2) by simp
  note V = zero_length_file [OF u1 u2 u3 n1 n2, where rest = "''MSG|x\<newline>''",
      THEN conjunct2, THEN conjunct2, THEN conjunct2, THEN mp, OF up]
  have r11: "log (snd (handle_step 0 ?u)) = [WarnFileHeader ''FILE|a.txt'']"
    using V [THEN conjunct2, THEN conjunct1] unfolding fl dn by simp
  have r12: "files (snd (handle_step 0 ?u)) = []"
    using V [THEN conjunct2, THEN conjunct2, THEN conjunct2, THEN conjunct1] unfolding fl .
  have r13: "outgoing (conns (snd (handle_step 0 ?u)) 2) = []"
    using V [THEN conjunct2, THEN conjunct2, THEN conjunct2, THEN conjunct2, THEN conjunct2,
        THEN conjunct1] o2(3) by simp
  show ?thesis using r0 r1 r2 r3 r4 r5 r6 r7 r8 r9 r10 r11 r12 r13 by blast
qed

text \<open>
  C8 as stated fails where the file cannot be made: for the name \<open>a\0b\<close>, \<open>open\<close> raises
  \<open>ValueError\<close>, which the handler does not catch; for a name of 256 bytes it raises
  \<open>OSError\<close> and the session ends as if the peer had closed. In both cases the frame
  \<open>FILE|<name>|0\<close> is decoded, nothing is saved and nothing is sent to the other clients.
\<close>

theorem zero_length_file_counterexample:
  "fst (read_frame (Connection [[CHR ''F'', CHR ''I'', CHR ''L'', CHR ''E'', BAR,
       CHR ''a'', CHR 0x00, CHR ''b'', BAR, CHR ''0'', NL]] None)) =
     Inr (Frame (FileTransfer [CHR ''a'', CHR 0x00, CHR ''b''] 0 [])) \<and>
   fst (handle_client 0 (example_server [[CHR ''F'', CHR ''I'', CHR ''L'', CHR ''E'', BAR,
       CHR ''a'', CHR 0x00, CHR ''b'', BAR, CHR ''0'', NL]])) = Some ValueError \<and>
   files (snd (handle_client 0 (example_server [[CHR ''F'', CHR ''I'', CHR ''L'', CHR ''E'', BAR,
       CHR ''a'', CHR 0x00, CHR ''b'', BAR, CHR ''0'', NL]]))) = [] \<and>
   log (snd (handle_client 0 (example_server [[CHR ''F'', CHR ''I'', CHR ''L'', CHR ''E'', BAR,
       CHR ''a'', CHR 0x00, CHR ''b'', BAR, CHR ''0'', NL]]))) = [] \<and>
   outgoing (conns (snd (handle_client 0 (example_server [[CHR ''F'', CHR ''I'', CHR ''L'',
       CHR ''E'', BAR, CHR ''a'', CHR 0x00, CHR ''b'', BAR, CHR ''0'', NL]]))) 2) = [] \<and>
   fst (handle_step 0 (example_server [''FILE|'' @ replicate 256 (CHR ''a'') @ ''|0\<newline>''])) =
     Raise OSError \<and>
   files (snd (handle_step 0 (example_server [''FILE|'' @ replicate 256 (CHR ''a'') @ ''|0\<newline>'']))) = [] \<and>
   log (snd (handle_step 0 (example_server [''FILE|'' @ replicate 256 (CHR ''a'') @ ''|0\<newline>'']))) = [] \<and>
   outgoing (conns (snd (handle_step 0
       (example_server [''FILE|'' @ replicate 256 (CHR ''a'') @ ''|0\<newline>''])))  2) = []"
proof -
  let ?n = "replicate 256 (CHR ''a'')"
  let ?s = "example_server [''FILE|'' @ ?n @ ''|0\<newline>'']"
  have nul: "fst (read_frame (Connection [[CHR ''F'', CHR ''I'', CHR ''L'', CHR ''E'', BAR,
       CHR ''a'', CHR 0x00, CHR ''b'', BAR, CHR ''0'', NL]] None)) =
     Inr (Frame (FileTransfer [CHR ''a'', CHR 0x00, CHR ''b''] 0 []))"
    by (simp add: eval_defs)
  have nul2: "fst (handle_client 0 (example_server [[CHR ''F'', CHR ''I'', CHR ''L'', CHR ''E'', BAR,
       CHR ''a'', CHR 0x00, CHR ''b'', BAR, CHR ''0'', NL]])) = Some ValueError \<and>
   files (snd (handle_client 0 (example_server [[CHR ''F'', CHR ''I'', CHR ''L'', CHR ''E'', BAR,
       CHR ''a'', CHR 0x00, CHR ''b'', BAR, CHR ''0'', NL]]))) = [] \<and>
   log (snd (handle_client 0 (example_server [[CHR ''F'', CHR ''I'', CHR ''L'', CHR ''E'', BAR,
       CHR ''a'', CHR 0x00, CHR ''b'', BAR, CHR ''0'', NL]]))) = [] \<and>
   outgoing (conns (snd (handle_client 0 (example_server [[CHR ''F'', CHR ''I'', CHR ''L'',
       CHR ''E'', BAR, CHR ''a'', CHR 0x00, CHR ''b'', BAR, CHR ''0'', NL]]))) 2) = []"
    by (simp add: handle_client_def handle_loop.simps eval_defs)
  have s2: "\<not> closed (conns ?s 0)" and s3: "chunks_ok (incoming (conns ?s 0))"
    by (simp_all add: example_server_def Connection_def)
  have n1: "NL \<notin> set ?n" and n2: "BAR \<notin> set ?n" and n3: "CHR ''/'' \<notin> set ?n"
    and n4: "CHR 0x00 \<notin> set ?n" by simp_all
  have asc: "list_all ascii ?n" by (simp add: list_all_iff ascii_iff)
  have dn: "decode_replace ?n = ?n" by (rule well_formed_fixed [OF ascii_well_formed [OF asc]])
  have sp: "pending (conns ?s 0) = ''FILE|'' @ ?n @ ''|0'' @ NL # []"
    by (simp add: example_server_def Connection_def pending_def)
  have len: "NAME_MAX < length ?n" by (simp add: NAME_MAX_def)
  have nn: "CHR 0x00 \<notin> set (unique_save_path (files ?s) ?n)"
    using n4 by (rule unique_save_path_no_NUL)
  have op: "open_error (unique_save_path (files ?s) (decode_replace ?n)) = Some OSError"
    unfolding dn using long_name_refused [OF n3 len, of "files ?s"] nn
    by (auto simp: open_error_def split: if_splits)
  have hs: "handle_step 0 ?s = (Raise OSError, ?s\<lparr>conns := (conns ?s)(0 := snd (recv_line (conns ?s 0)))\<rparr>)"
    by (rule zero_length_refused [OF s2 s3 n1 n2 sp op])
  have long: "fst (handle_step 0 ?s) = Raise OSError \<and> files (snd (handle_step 0 ?s)) = [] \<and>
      log (snd (handle_step 0 ?s)) = [] \<and> outgoing (conns (snd (handle_step 0 ?s)) 2) = []"
    unfolding hs by (simp add: example_server_def Connection_def)
  show ?thesis using nul nul2 long by blast
qed

end
